theory Spec2Isabelle
  imports Main "HOL-Library.Word" "HOL-Library.Signed_Division"
begin

section \<open>Machine integers, vectors and results\<close>

text \<open>
  The C++ sources index with \<^verbatim>\<open>int\<close> (32 bits, two's complement) and aggregate in
  \<^verbatim>\<open>long long\<close> (64 bits). Both are words here: arithmetic wraps around, and the signed
  reading \<open>sint\<close> decides comparisons and division, as the machine does. (Signed overflow
  is undefined behaviour in C++; the model takes the two's complement result.)
\<close>

type_synonym cint = "32 word"
type_synonym T = "64 word"

text \<open>
  What can go wrong in the model: an index outside a \<^verbatim>\<open>std::vector\<close> (undefined behaviour
  in C++), and a \<^verbatim>\<open>resize\<close> to a negative \<^verbatim>\<open>int\<close>, which converts to a size beyond
  \<^verbatim>\<open>max_size()\<close> and throws. A call that never returns is the value \<open>None\<close>.
\<close>

datatype error = OutOfBounds | LengthError

type_synonym 'a result = "(error + 'a) option"

text \<open>
  One statement after the other: when the first goes wrong or does not return, so does the
  whole.
\<close>

definition rbind :: "'a result \<Rightarrow> ('a \<Rightarrow> 'b result) \<Rightarrow> 'b result" where
  "rbind m f = Option.bind m (\<lambda>r. case r of Inl e \<Rightarrow> Some (Inl e) | Inr x \<Rightarrow> f x)"

text \<open>\<open>rbind\<close> is monotone, which the recursive definitions below rely on.\<close>

lemma rbind_mono [partial_function_mono]:
  assumes "mono_option B" and "\<And>y. mono_option (\<lambda>f. C y f)"
  shows "mono_option (\<lambda>f. rbind (B f) (\<lambda>y. C y f))"
  unfolding rbind_def
proof (rule bind_mono [OF assms(1)], goal_cases)
  case (1 r)
  show ?case
    by (cases r) (simp_all add: option.const_mono assms(2))
qed

text \<open>\<^verbatim>\<open>a / b\<close> on \<^verbatim>\<open>int\<close> truncates towards zero.\<close>

definition int_div :: "cint \<Rightarrow> cint \<Rightarrow> cint" where
  "int_div a b = word_of_int (sint a sdiv sint b)"

text \<open>\<^verbatim>\<open>std::min(a, b)\<close> is \<^verbatim>\<open>(b < a) ? b : a\<close>; \<^verbatim>\<open>std::max(a, b)\<close> is \<^verbatim>\<open>(a < b) ? b : a\<close>.\<close>

definition int_min :: "cint \<Rightarrow> cint \<Rightarrow> cint" where
  "int_min a b = (if b <s a then b else a)"

definition int_max :: "cint \<Rightarrow> cint \<Rightarrow> cint" where
  "int_max a b = (if a <s b then b else a)"

text \<open>
  \<^verbatim>\<open>xs[i]\<close> with an \<^verbatim>\<open>int\<close> index: the index converts to \<^verbatim>\<open>size_t\<close>, so a negative one
  is beyond every size.
\<close>

definition in_range :: "'a list \<Rightarrow> cint \<Rightarrow> bool" where
  "in_range xs i \<longleftrightarrow> 0 \<le>s i \<and> unat i < length xs"

definition vec_get :: "'a list \<Rightarrow> cint \<Rightarrow> error + 'a" where
  "vec_get xs i = (if in_range xs i then Inr (xs ! unat i) else Inl OutOfBounds)"

definition vec_set :: "'a list \<Rightarrow> cint \<Rightarrow> 'a \<Rightarrow> error + 'a list" where
  "vec_set xs i x = (if in_range xs i then Inr (xs[unat i := x]) else Inl OutOfBounds)"

section \<open>Segment tree (generic, point update)\<close>

text \<open>
  \<^verbatim>\<open>struct SegTree { int n; std::vector<T> t; ... }\<close>. The fields are \<open>seg_n\<close> and
  \<open>seg_t\<close> here, and the range bounds \<^verbatim>\<open>tl\<close>, \<^verbatim>\<open>tr\<close> of the helpers are \<open>tL\<close>, \<open>tR\<close>
  (\<open>tl\<close> is the tail of a list in HOL).
\<close>

record SegTree =
  seg_n :: cint
  seg_t :: "T list"

definition IDENTITY :: T where
  "IDENTITY = 0"

definition merge :: "T \<Rightarrow> T \<Rightarrow> T" where
  "merge a b = a + b"

text \<open>Reading and writing a slot of the member \<^verbatim>\<open>t\<close>.\<close>

definition load :: "SegTree \<Rightarrow> cint \<Rightarrow> T result" where
  "load s v = Some (vec_get (seg_t s) v)"

definition store :: "cint \<Rightarrow> T \<Rightarrow> SegTree \<Rightarrow> SegTree result" where
  "store v x s =
     (case vec_set (seg_t s) v x of
        Inl e \<Rightarrow> Some (Inl e)
      | Inr t' \<Rightarrow> Some (Inr (s\<lparr>seg_t := t'\<rparr>)))"

text \<open>\<^verbatim>\<open>int tm = tl + (tr - tl) / 2;\<close> the same line in all three recursive helpers.\<close>

definition tm_of :: "cint \<Rightarrow> cint \<Rightarrow> cint" where
  "tm_of tL tR = tL + int_div (tR - tL) 2"

partial_function (option) build ::
  "32 word list \<Rightarrow> cint \<Rightarrow> cint \<Rightarrow> cint \<Rightarrow> SegTree \<Rightarrow> SegTree result" where
  "build a v tL tR s =
     (if tL = tR then
        rbind (Some (vec_get a tL)) (\<lambda>x. store v (scast x) s)
      else
        let tm = tm_of tL tR in
        rbind (build a (v * 2) tL tm s) (\<lambda>s1.
        rbind (build a (v * 2 + 1) (tm + 1) tR s1) (\<lambda>s2.
        rbind (load s2 (v * 2)) (\<lambda>x.
        rbind (load s2 (v * 2 + 1)) (\<lambda>y.
        store v (merge x y) s2)))))"

declare build.simps [code]

partial_function (option) query_recursive ::
  "cint \<Rightarrow> cint \<Rightarrow> cint \<Rightarrow> cint \<Rightarrow> cint \<Rightarrow> SegTree \<Rightarrow> (T \<times> SegTree) result" where
  "query_recursive v tL tR l r s =
     (if r <s l then Some (Inr (IDENTITY, s))
      else if l = tL \<and> r = tR then
        rbind (load s v) (\<lambda>x. Some (Inr (x, s)))
      else
        let tm = tm_of tL tR in
        rbind (query_recursive (v * 2) tL tm l (int_min r tm) s) (\<lambda>(left_res, s1).
        rbind (query_recursive (v * 2 + 1) (tm + 1) tR (int_max l (tm + 1)) r s1) (\<lambda>(right_res, s2).
        Some (Inr (merge left_res right_res, s2)))))"

declare query_recursive.simps [code]

partial_function (option) update_recursive ::
  "cint \<Rightarrow> cint \<Rightarrow> cint \<Rightarrow> cint \<Rightarrow> T \<Rightarrow> SegTree \<Rightarrow> SegTree result" where
  "update_recursive v tL tR pos new_val s =
     (if tL = tR then store v new_val s
      else
        let tm = tm_of tL tR in
        rbind (if pos \<le>s tm then update_recursive (v * 2) tL tm pos new_val s
               else update_recursive (v * 2 + 1) (tm + 1) tR pos new_val s) (\<lambda>s1.
        rbind (load s1 (v * 2)) (\<lambda>x.
        rbind (load s1 (v * 2 + 1)) (\<lambda>y.
        store v (merge x y) s1))))"

declare update_recursive.simps [code]

text \<open>
  The constructor: \<^verbatim>\<open>n = a.size(); t.resize(4 * n); build(a, 1, 0, n - 1);\<close>
  The size narrows to \<^verbatim>\<open>int\<close>, the product is an \<^verbatim>\<open>int\<close>, and the new slots are zero.
\<close>

definition SegTree_ctor :: "32 word list \<Rightarrow> SegTree result" where
  "SegTree_ctor a =
     (let n = (word_of_nat (length a) :: cint); m = 4 * n in
      if m <s 0 then Some (Inl LengthError)
      else build a 1 0 (n - 1) \<lparr>seg_n = n, seg_t = replicate (unat m) 0\<rparr>)"

definition query :: "cint \<Rightarrow> cint \<Rightarrow> SegTree \<Rightarrow> (T \<times> SegTree) result" where
  "query l r s = query_recursive 1 0 (seg_n s - 1) l r s"

definition update :: "cint \<Rightarrow> T \<Rightarrow> SegTree \<Rightarrow> SegTree result" where
  "update pos new_val s = update_recursive 1 0 (seg_n s - 1) pos new_val s"

text \<open>
  A caller that runs point updates one after the other, and what the same updates do to
  the conceptual array.
\<close>

fun updates :: "(cint \<times> T) list \<Rightarrow> SegTree \<Rightarrow> SegTree result" where
  "updates [] s = Some (Inr s)"
| "updates ((pos, new_val) # us) s = rbind (update pos new_val s) (updates us)"

fun array_after :: "(cint \<times> T) list \<Rightarrow> T list \<Rightarrow> T list" where
  "array_after [] xs = xs"
| "array_after ((pos, new_val) # us) xs = array_after us (xs[unat pos := new_val])"

subsection \<open>What the tree is meant to hold\<close>

text \<open>
  The naive left-to-right fold of \<open>merge\<close> over the elements \<open>l..r\<close> of the conceptual
  array; an empty range (\<open>l > r\<close>) folds to the identity.
\<close>

definition fold_range :: "T list \<Rightarrow> nat \<Rightarrow> nat \<Rightarrow> T" where
  "fold_range xs l r = foldl merge IDENTITY (take (Suc r - l) (drop l xs))"

text \<open>
  The invariant of the node in slot \<open>v\<close> covering \<open>[tL, tR]\<close> and of every node below it,
  as a recursive check along the split points of the code: the slot exists and holds the
  fold of the array over the node's range.
\<close>

function node_ok :: "T list \<Rightarrow> T list \<Rightarrow> nat \<Rightarrow> nat \<Rightarrow> nat \<Rightarrow> bool" where
  "node_ok xs t v tL tR =
     (v < length t \<and> t ! v = fold_range xs tL tR \<and>
      (if tL < tR then
         node_ok xs t (2 * v) tL (tL + (tR - tL) div 2) \<and>
         node_ok xs t (2 * v + 1) (tL + (tR - tL) div 2 + 1) tR
       else True))"
  by pat_completeness auto
termination
  by (relation "measure (\<lambda>(xs, t, v, tL, tR). tR - tL)") auto

declare node_ok.simps [simp del]

text \<open>
  The nodes of the tree below slot \<open>v\<close> covering \<open>[tL, tR]\<close>, each with its slot and range,
  along the split points of the code: \<open>(2 * v, tL, tm)\<close> and \<open>(2 * v + 1, tm + 1, tR)\<close>.
\<close>

function nodes :: "nat \<Rightarrow> nat \<Rightarrow> nat \<Rightarrow> (nat \<times> nat \<times> nat) list" where
  "nodes v tL tR =
     (v, tL, tR) #
     (if tL < tR then
        nodes (2 * v) tL (tL + (tR - tL) div 2) @
        nodes (2 * v + 1) (tL + (tR - tL) div 2 + 1) tR
      else [])"
  by pat_completeness auto
termination
  by (relation "measure (\<lambda>(v, tL, tR). tR - tL)") auto

declare nodes.simps [simp del]

text \<open>
  A tree state that stands for the conceptual array \<open>xs\<close>: \<open>n\<close> is its length, the buffer
  has the \<open>4 * n\<close> slots the constructor gave it (an \<^verbatim>\<open>int\<close>), and every node from the
  root \<open>(1, 0, n - 1)\<close> down has its slot in the buffer and holds there the fold of
  \<open>merge\<close> over its range. The leaves are the nodes with \<open>tL = tR\<close>: they hold \<open>xs\<close> itself.
\<close>

definition tree_inv :: "SegTree \<Rightarrow> T list \<Rightarrow> bool" where
  "tree_inv s xs \<longleftrightarrow>
     xs \<noteq> [] \<and> 4 * length xs < 2 ^ 31 \<and>
     seg_n s = word_of_nat (length xs) \<and>
     length (seg_t s) = 4 * length xs \<and>
     (\<forall>(v, tL, tR) \<in> set (nodes 1 0 (length xs - 1)).
        v < length (seg_t s) \<and> seg_t s ! v = fold_range xs tL tR)"

subsection \<open>The implicit layout\<close>

text \<open>
  Three notions the proofs use. \<open>desc v u\<close>: slot \<open>u\<close> lies in the subtree of slot \<open>v\<close>
  (halving \<open>u\<close> some number of times gives \<open>v\<close>). \<open>fits v m L\<close>: the subtree of a node in
  slot \<open>v\<close> that covers \<open>m\<close> elements stays below \<open>L\<close>. \<open>wnode v tL tR L\<close>: the \<^verbatim>\<open>int\<close>s
  \<open>v\<close>, \<open>tL\<close>, \<open>tR\<close> are a node of a tree in a buffer of \<open>L\<close> slots, none of them near
  the end of \<^verbatim>\<open>int\<close>.
\<close>

definition desc :: "nat \<Rightarrow> nat \<Rightarrow> bool" where
  "desc v u \<longleftrightarrow> (\<exists>j. u div 2 ^ j = v)"

definition fits :: "nat \<Rightarrow> nat \<Rightarrow> nat \<Rightarrow> bool" where
  "fits v m L \<longleftrightarrow> (\<exists>k. m \<le> 2 ^ k \<and> (v + 1) * 2 ^ k \<le> L)"

definition wnode :: "cint \<Rightarrow> cint \<Rightarrow> cint \<Rightarrow> nat \<Rightarrow> bool" where
  "wnode v tL tR L \<longleftrightarrow>
     unat tL \<le> unat tR \<and> unat tR < 2 ^ 31 \<and> L < 2 ^ 31 \<and> 1 \<le> unat v \<and>
     fits (unat v) (unat tR - unat tL + 1) L"

subsection \<open>The calls of the recursive helpers\<close>







section \<open>Disjoint set union\<close>

text \<open>\<^verbatim>\<open>struct DSU { std::vector<int> parent; std::vector<int> sz; ... }\<close>\<close>

record DSU =
  parent :: "cint list"
  sz :: "cint list"

text \<open>
  The constructor: \<^verbatim>\<open>parent.resize(n); std::iota(parent.begin(), parent.end(), 0);
  sz.assign(n, 1);\<close> A negative \<open>n\<close> converts to a size beyond \<^verbatim>\<open>max_size()\<close>.
\<close>

definition DSU_ctor :: "cint \<Rightarrow> DSU result" where
  "DSU_ctor n =
     (if n <s 0 then Some (Inl LengthError)
      else Some (Inr \<lparr>parent = map word_of_nat [0..<unat n], sz = replicate (unat n) 1\<rparr>))"

text \<open>
  \<^verbatim>\<open>if (v == parent[v]) return v; return parent[v] = find_set(parent[v]);\<close>
  The recursive call runs on the state as it is; its result is stored in \<^verbatim>\<open>parent[v]\<close> of
  the state it hands back.
\<close>

partial_function (option) find_set :: "cint \<Rightarrow> DSU \<Rightarrow> (cint \<times> DSU) result" where
  "find_set v s =
     rbind (Some (vec_get (parent s) v)) (\<lambda>p.
     if v = p then Some (Inr (v, s))
     else
       rbind (Some (vec_get (parent s) v)) (\<lambda>p'.
       rbind (find_set p' s) (\<lambda>(r, s1).
       rbind (Some (vec_set (parent s1) v r)) (\<lambda>ps.
       Some (Inr (r, s1\<lparr>parent := ps\<rparr>))))))"

declare find_set.simps [code]

text \<open>
  \<^verbatim>\<open>a = find_set(a); b = find_set(b);
  if (a != b) { if (sz[a] < sz[b]) std::swap(a, b); parent[b] = a; sz[a] += sz[b]; }\<close>
\<close>

definition union_sets :: "cint \<Rightarrow> cint \<Rightarrow> DSU \<Rightarrow> DSU result" where
  "union_sets a b s =
     rbind (find_set a s) (\<lambda>(a1, s1).
     rbind (find_set b s1) (\<lambda>(b1, s2).
     if a1 \<noteq> b1 then
       rbind (Some (vec_get (sz s2) a1)) (\<lambda>sa.
       rbind (Some (vec_get (sz s2) b1)) (\<lambda>sb.
       let (a2, b2) = (if sa <s sb then (b1, a1) else (a1, b1)) in
       rbind (Some (vec_set (parent s2) b2 a2)) (\<lambda>ps.
       rbind (Some (vec_get (sz s2) a2)) (\<lambda>sa2.
       rbind (Some (vec_get (sz s2) b2)) (\<lambda>sb2.
       rbind (Some (vec_set (sz s2) a2 (sa2 + sb2))) (\<lambda>szs.
       Some (Inr (s2\<lparr>parent := ps, sz := szs\<rparr>))))))))
     else Some (Inr s2)))"

subsection \<open>Representatives and the states a caller can reach\<close>

text \<open>
  The representative of \<open>x\<close> in a state is what \<open>find_set(x)\<close> returns there.
\<close>

definition representative :: "DSU \<Rightarrow> cint \<Rightarrow> cint option" where
  "representative s x =
     (case find_set x s of Some (Inr (r, s')) \<Rightarrow> Some r | _ \<Rightarrow> None)"

text \<open>
  The states of a DSU over \<open>n\<close> elements: the constructed one, and those that calls of
  \<open>find_set\<close> and \<open>union_sets\<close> with arguments in \<open>[0, n - 1]\<close> lead to.
\<close>

inductive dsu_state :: "cint \<Rightarrow> DSU \<Rightarrow> bool" for n :: cint where
  init: "DSU_ctor n = Some (Inr s) \<Longrightarrow> dsu_state n s"
| find: "dsu_state n s \<Longrightarrow> 0 \<le>s v \<Longrightarrow> v <s n \<Longrightarrow>
         find_set v s = Some (Inr (r, s')) \<Longrightarrow> dsu_state n s'"
| union: "dsu_state n s \<Longrightarrow> 0 \<le>s a \<Longrightarrow> a <s n \<Longrightarrow> 0 \<le>s b \<Longrightarrow> b <s n \<Longrightarrow>
          union_sets a b s = Some (Inr s') \<Longrightarrow> dsu_state n s'"

text \<open>
  Following \<open>parent\<close> from \<open>v\<close> ends in the root \<open>r\<close>; and the invariant of the forest:
  both vectors have the same size and every element reaches a root.
\<close>

inductive rep :: "cint list \<Rightarrow> cint \<Rightarrow> cint \<Rightarrow> bool" for ps :: "cint list" where
  root: "in_range ps v \<Longrightarrow> ps ! unat v = v \<Longrightarrow> rep ps v v"
| step: "in_range ps v \<Longrightarrow> ps ! unat v \<noteq> v \<Longrightarrow> rep ps (ps ! unat v) r \<Longrightarrow> rep ps v r"

code_pred (modes: i \<Rightarrow> i \<Rightarrow> o \<Rightarrow> bool as rep_of, i \<Rightarrow> i \<Rightarrow> i \<Rightarrow> bool as rep_check) rep .

definition dsu_inv :: "DSU \<Rightarrow> bool" where
  "dsu_inv s \<longleftrightarrow>
     length (sz s) = length (parent s) \<and>
     (\<forall>v. in_range (parent s) v \<longrightarrow> (\<exists>r. rep (parent s) v r))"

section \<open>Proofs: machine integers\<close>

lemma uint_lt: "unat (a::cint) < 2^31 \<Longrightarrow> uint a < 2^31"
proof -
  assume "unat a < 2^31"
  then have "nat (uint a) < 2^31" by (simp only: unat_eq_nat_uint [symmetric])
  then have "uint a < int (2^31)" by (simp only: nat_less_iff [OF uint_ge_0])
  then show ?thesis by simp
qed

lemma sint_unat: "unat (a::cint) < 2^31 \<Longrightarrow> sint a = uint a"
proof -
  assume "unat a < 2^31"
  then have "uint a < 2^31" by (rule uint_lt)
  moreover have "- (2^31) \<le> uint a"
    by (rule order_trans [of _ 0]) simp_all
  ultimately have "signed_take_bit 31 (uint a) = uint a"
    by (simp add: signed_take_bit_int_eq_self)
  then show ?thesis by (simp add: sint_uint)
qed

lemma sless_unat: "unat (a::cint) < 2^31 \<Longrightarrow> unat b < 2^31 \<Longrightarrow> (a <s b) = (unat a < unat b)"
  by (simp add: word_sless_alt sint_unat flip: word_less_nat_alt word_less_def)

lemma sle_unat: "unat (a::cint) < 2^31 \<Longrightarrow> unat b < 2^31 \<Longrightarrow> (a \<le>s b) = (unat a \<le> unat b)"
  by (simp add: word_sle_eq sint_unat flip: word_le_nat_alt word_le_def)

lemma sdiv_nonneg: "0 \<le> (k::int) \<Longrightarrow> k sdiv 2 = k div 2"
  by (cases "k = 0") (simp_all add: signed_divide_int_def sgn_if)

lemma int_div_2: "unat (x::cint) < 2^31 \<Longrightarrow> unat (int_div x 2) = unat x div 2"
proof -
  assume a: "unat x < 2^31"
  have "uint x sdiv 2 = uint x div 2"
    by (rule sdiv_nonneg) simp
  then have "int_div x 2 = word_of_int (uint x div 2)"
    by (simp add: int_div_def sint_unat [OF a])
  also have "\<dots> = x div 2"
    by (simp add: word_div_def)
  finally show ?thesis by (simp add: unat_div)
qed

lemma unat_succ: "unat (x::cint) < 2^32 - 1 \<Longrightarrow> unat (x + 1) = unat x + 1"
  using unat_add_lem [of x 1] by simp

lemma unat_twice: "unat (v::cint) < 2^31 \<Longrightarrow> unat (v * 2) = 2 * unat v"
  using unat_mult_lem [of v 2] by simp

lemma unat_diff: "unat (a::cint) \<le> unat b \<Longrightarrow> unat (b - a) = unat b - unat a"
  by (simp add: unat_sub word_le_nat_alt)

lemma unat_plus: "unat (a::cint) + unat b < 2^32 \<Longrightarrow> unat (a + b) = unat a + unat b"
  using unat_add_lem [of a b] by simp

lemma tm_unat: 
  assumes "unat tL \<le> unat tR" "unat tR < 2^31"
  shows "unat (tm_of tL tR) = unat tL + (unat tR - unat tL) div 2"
proof -
  have d: "unat (tR - tL) = unat tR - unat tL" using assms by (simp add: unat_diff)
  then have "unat (int_div (tR - tL) 2) = (unat tR - unat tL) div 2"
    using assms by (simp add: int_div_2)
  then show ?thesis unfolding tm_of_def using assms by (simp add: unat_plus)
qed

lemma sint_nonneg:
  assumes "0 \<le> sint (a::cint)"
  shows "sint a = uint a" "unat a < 2 ^ 31"
proof -
  have nb: "\<not> bit a 31" using assms bit_last_iff [of a] by simp
  then have nb': "\<not> bit (uint a) 31" by (simp add: bit_uint_iff)
  have "sint a = signed_take_bit 31 (uint a)" by (simp add: sint_uint)
  also have "\<dots> = take_bit 31 (uint a)"
    using nb' by (rule signed_take_bit_eq_if_positive)
  finally have s: "sint a = take_bit 31 (uint a)" .
  have "take_bit 32 (uint a) = uint a"
    using uint_bounded [of a] by (intro take_bit_int_eq_self) simp_all
  then have "uint a = take_bit 32 (uint a)" by (rule sym)
  also have "\<dots> = take_bit 31 (uint a)"
    using nb' take_bit_Suc_from_most [of 31 "uint a"] by simp
  finally have u: "uint a = take_bit 31 (uint a)" .
  show "sint a = uint a" using s u by simp
  have "take_bit 31 (uint a) < 2 ^ 31" by (rule take_bit_int_less_exp)
  then have "uint a < 2 ^ 31" using u by simp
  then have "int (unat a) < int (2 ^ 31)" by simp
  then show "unat a < 2 ^ 31" by (simp only: of_nat_less_iff)
qed

lemma unat_of_nat32: "N < 2 ^ 32 \<Longrightarrow> unat (word_of_nat N :: cint) = N"
  by (simp add: unat_of_nat)




section \<open>Proofs: results and vectors\<close>

lemma rbind_simps:
  "rbind (Some (Inr x)) f = f x"
  "rbind (Some (Inl e)) f = Some (Inl e)"
  "rbind None f = None"
  by (simp_all add: rbind_def)

lemma rbind_eq_Inr:
  assumes "rbind m f = Some (Inr y)"
  shows "\<exists>x. m = Some (Inr x) \<and> f x = Some (Inr y)"
proof (cases m)
  case None
  then show ?thesis using assms by (simp add: rbind_def)
next
  case (Some r)
  then show ?thesis using assms by (cases r) (simp_all add: rbind_def)
qed

lemma in_rangeI: "unat (i::cint) < 2 ^ 31 \<Longrightarrow> unat i < length xs \<Longrightarrow> in_range xs i"
  by (simp add: in_range_def word_sle_eq sint_unat)

lemma in_range_length: "length ys = length xs \<Longrightarrow> in_range ys i = in_range xs i"
  by (simp add: in_range_def)

section \<open>Proofs: segment tree\<close>

subsection \<open>merge is a monoid\<close>

lemma merge_assoc: "merge (merge a b) c = merge a (merge b c)"
  by (simp add: merge_def add.assoc)

lemma merge_IDENTITY_left: "merge IDENTITY a = a"
  by (simp add: merge_def IDENTITY_def)

lemma merge_IDENTITY_right: "merge a IDENTITY = a"
  by (simp add: merge_def IDENTITY_def)

lemma foldl_merge_start: "foldl merge a bs = merge a (foldl merge IDENTITY bs)"
proof (induction bs arbitrary: a)
  case Nil
  show ?case by (simp add: merge_IDENTITY_right)
next
  case (Cons b bs)
  have "foldl merge a (b # bs) = merge (merge a b) (foldl merge IDENTITY bs)"
    using Cons.IH [of "merge a b"] by simp
  also have "\<dots> = merge a (merge b (foldl merge IDENTITY bs))"
    by (rule merge_assoc)
  also have "merge b (foldl merge IDENTITY bs) = foldl merge IDENTITY (b # bs)"
    using Cons.IH [of "merge IDENTITY b"] by (simp add: merge_IDENTITY_left)
  finally show ?case .
qed

lemma foldl_merge_append:
  "foldl merge IDENTITY (as @ bs) = merge (foldl merge IDENTITY as) (foldl merge IDENTITY bs)"
  using foldl_merge_start [of "foldl merge IDENTITY as" bs] by simp

lemma fold_range_empty: "r < l \<Longrightarrow> fold_range xs l r = IDENTITY"
  by (simp add: fold_range_def)

lemma fold_range_single: "i < length xs \<Longrightarrow> fold_range xs i i = xs ! i"
  by (simp add: fold_range_def take_Suc_conv_app_nth merge_IDENTITY_left hd_drop_conv_nth take_Suc)

lemma fold_range_split:
  assumes "l \<le> m" "m < r"
  shows "fold_range xs l r = merge (fold_range xs l m) (fold_range xs (Suc m) r)"
proof -
  have "Suc r - l = (Suc m - l) + (r - m)" using assms by simp
  then have "take (Suc r - l) (drop l xs) =
      take (Suc m - l) (drop l xs) @ take (r - m) (drop (Suc m - l) (drop l xs))"
    by (simp only: take_add)
  moreover have "drop (Suc m - l) (drop l xs) = drop (Suc m) xs"
    using assms by simp
  ultimately have e: "take (Suc r - l) (drop l xs) =
      take (Suc m - l) (drop l xs) @ take (Suc r - Suc m) (drop (Suc m) xs)"
    by simp
  show ?thesis
    unfolding fold_range_def e foldl_merge_append ..
qed

lemma fold_range_clamp:
  assumes "l \<le> r"
  shows "fold_range xs l r = merge (fold_range xs l (min r m)) (fold_range xs (max l (Suc m)) r)"
proof -
  consider "m < l" | "l \<le> m" "m < r" | "r \<le> m" by linarith
  then show ?thesis
  proof cases
    case 1
    then have "min r m < l" "max l (Suc m) = l" using assms by simp_all
    then show ?thesis by (simp add: fold_range_empty merge_IDENTITY_left)
  next
    case 2
    then have "min r m = m" "max l (Suc m) = Suc m" by simp_all
    then show ?thesis using fold_range_split [OF 2] by simp
  next
    case 3
    then have "min r m = r" "r < max l (Suc m)" by simp_all
    then show ?thesis by (simp add: fold_range_empty merge_IDENTITY_right)
  qed
qed

lemma fold_range_cong:
  assumes "length ys = length xs" "\<And>i. l \<le> i \<Longrightarrow> i \<le> r \<Longrightarrow> i < length xs \<Longrightarrow> ys ! i = xs ! i"
  shows "fold_range ys l r = fold_range xs l r"
proof -
  have "take (Suc r - l) (drop l ys) = take (Suc r - l) (drop l xs)"
    by (rule nth_equalityI) (use assms in \<open>auto\<close>)
  then show ?thesis by (simp add: fold_range_def)
qed

subsection \<open>The slots below a node\<close>

lemma desc_refl: "desc v v"
  unfolding desc_def by (rule exI [of _ 0]) simp

lemma desc_child: "desc (2 * v) u \<or> desc (2 * v + 1) u \<Longrightarrow> desc v u"
proof -
  assume "desc (2 * v) u \<or> desc (2 * v + 1) u"
  then obtain j where "u div 2 ^ j = 2 * v \<or> u div 2 ^ j = 2 * v + 1"
    unfolding desc_def by blast
  then have "u div 2 ^ j div 2 = v" by auto
  then have "u div 2 ^ Suc j = v" by (simp only: power_Suc2 div_mult2_eq)
  then show ?thesis unfolding desc_def by blast
qed

lemma desc_le: "desc v u \<Longrightarrow> v \<le> u"
  unfolding desc_def using div_le_dividend by blast

lemma desc_siblings:
  assumes "1 \<le> v" "desc (2 * v) u"
  shows "\<not> desc (2 * v + 1) u"
proof
  assume "desc (2 * v + 1) u"
  then obtain j where j: "u div 2 ^ j = 2 * v + 1" unfolding desc_def by blast
  from assms obtain k where k: "u div 2 ^ k = 2 * v" unfolding desc_def by blast
  show False
  proof (cases j k rule: linorder_cases)
    case less
    then obtain d where d: "k = j + Suc d" using less_iff_Suc_add by auto
    have "u div 2 ^ k = (2 * v + 1) div 2 ^ Suc d"
      using j by (simp only: d power_add div_mult2_eq)
    also have "\<dots> = v div 2 ^ d" by (simp add: div_mult2_eq)
    also have "\<dots> \<le> v" by (rule div_le_dividend)
    finally show False using k assms(1) by simp
  next
    case equal
    then show False using j k by simp
  next
    case greater
    then obtain d where d: "j = k + Suc d" using less_iff_Suc_add by auto
    have "u div 2 ^ j = (2 * v) div 2 ^ Suc d"
      using k by (simp only: d power_add div_mult2_eq)
    also have "\<dots> = v div 2 ^ d" by (simp add: div_mult2_eq)
    also have "\<dots> \<le> v" by (rule div_le_dividend)
    finally show False using j by simp
  qed
qed

lemma desc_not_self:
  assumes "1 \<le> v"
  shows "\<not> desc (2 * v) v" "\<not> desc (2 * v + 1) v"
  using assms desc_le [of "2 * v" v] desc_le [of "2 * v + 1" v] by auto

lemma node_ok_cong:
  assumes "node_ok xs t v tL tR"
    and "length t' = length t" and "\<And>u. desc v u \<Longrightarrow> t' ! u = t ! u"
    and "length xs' = length xs"
    and "\<And>i. tL \<le> i \<Longrightarrow> i \<le> tR \<Longrightarrow> i < length xs \<Longrightarrow> xs' ! i = xs ! i"
  shows "node_ok xs' t' v tL tR"
  using assms
proof (induction xs t v tL tR rule: node_ok.induct)
  case (1 xs t v tL tR)
  let ?tm = "tL + (tR - tL) div 2"
  from "1.prems"(1) have here: "v < length t" "t ! v = fold_range xs tL tR"
    and kids: "tL < tR \<Longrightarrow> node_ok xs t (2 * v) tL ?tm \<and> node_ok xs t (2 * v + 1) (?tm + 1) tR"
    by (simp_all add: node_ok.simps [of xs t v tL tR])
  have a: "v < length t'" using here "1.prems"(2) by simp
  have b: "t' ! v = fold_range xs' tL tR"
    using here "1.prems"(3) [OF desc_refl] fold_range_cong [of xs' xs tL tR] "1.prems"(4,5)
    by simp
  have c: "node_ok xs' t' (2 * v) tL ?tm \<and> node_ok xs' t' (2 * v + 1) (?tm + 1) tR" if lt: "tL < tR"
  proof
    show "node_ok xs' t' (2 * v) tL ?tm"
    proof (rule "1.IH"(1) [OF lt])
      show "node_ok xs t (2 * v) tL ?tm" using kids lt by simp
      show "length t' = length t" by fact
      show "t' ! u = t ! u" if "desc (2 * v) u" for u
        using that desc_child "1.prems"(3) by blast
      show "length xs' = length xs" by fact
      show "xs' ! i = xs ! i" if "tL \<le> i" "i \<le> ?tm" "i < length xs" for i
        using that lt "1.prems"(5) [of i] by simp
    qed
    show "node_ok xs' t' (2 * v + 1) (?tm + 1) tR"
    proof (rule "1.IH"(2) [OF lt])
      show "node_ok xs t (2 * v + 1) (?tm + 1) tR" using kids lt by simp
      show "length t' = length t" by fact
      show "t' ! u = t ! u" if "desc (2 * v + 1) u" for u
        using that desc_child "1.prems"(3) by blast
      show "length xs' = length xs" by fact
      show "xs' ! i = xs ! i" if "?tm + 1 \<le> i" "i \<le> tR" "i < length xs" for i
        using that lt "1.prems"(5) [of i] by simp
    qed
  qed
  show ?case
    using a b c by (simp add: node_ok.simps [of xs' t' v tL tR])
qed

subsection \<open>Slots fit the buffer\<close>

lemma fits_bound: "fits v m L \<Longrightarrow> v < L"
proof -
  assume "fits v m L"
  then obtain k where k: "(v + 1) * 2 ^ k \<le> L" unfolding fits_def by blast
  have "(v + 1) * 1 \<le> (v + 1) * 2 ^ k" by (rule mult_le_mono2) simp
  then show ?thesis using k by simp
qed

lemma fits_children:
  assumes "fits v (tR - tL + 1) L" "tL < tR"
  shows "fits (2 * v) ((tL + (tR - tL) div 2) - tL + 1) L"
    and "fits (2 * v + 1) (tR - (tL + (tR - tL) div 2 + 1) + 1) L"
    and "2 * v + 1 < L"
proof -
  from assms(1) obtain k where k: "tR - tL + 1 \<le> 2 ^ k" "(v + 1) * 2 ^ k \<le> L"
    unfolding fits_def by blast
  have "k \<noteq> 0" using k(1) assms(2) by (cases k) auto
  then obtain k' where k': "k = Suc k'" by (cases k) auto
  have m: "tR - tL + 1 \<le> 2 * 2 ^ k'" using k(1) k' by simp
  have L: "(2 * v + 2) * 2 ^ k' \<le> L" using k(2) k' by (simp add: algebra_simps)
  have "(2 * v + 1) * 2 ^ k' \<le> (2 * v + 2) * 2 ^ k'" by simp
  then have L1: "(2 * v + 1) * 2 ^ k' \<le> L" using L by linarith
  have "(tL + (tR - tL) div 2) - tL + 1 \<le> 2 ^ k'" using m by simp
  then show "fits (2 * v) ((tL + (tR - tL) div 2) - tL + 1) L"
    unfolding fits_def using L1 by auto
  have "tR - (tL + (tR - tL) div 2 + 1) + 1 \<le> 2 ^ k'" using m assms(2) by simp
  then show "fits (2 * v + 1) (tR - (tL + (tR - tL) div 2 + 1) + 1) L"
    unfolding fits_def using L by auto
  have "(2 * v + 2) * 1 \<le> (2 * v + 2) * 2 ^ k'" by (rule mult_le_mono2) simp
  then show "2 * v + 1 < L" using L by simp
qed

lemma fits_root:
  assumes "1 \<le> N"
  shows "fits 1 N (4 * N)"
proof -
  have "\<exists>k. N \<le> 2 ^ k \<and> 2 ^ k \<le> 2 * N" using assms
  proof (induction N rule: less_induct)
    case (less N)
    show ?case
    proof (cases "N = 1")
      case True
      then show ?thesis by (intro exI [of _ 0]) simp
    next
      case False
      then have "(N + 1) div 2 < N" "1 \<le> (N + 1) div 2" using less.prems by auto
      then obtain k where k: "(N + 1) div 2 \<le> 2 ^ k" "2 ^ k \<le> 2 * ((N + 1) div 2)"
        using less.IH by blast
      have "N \<le> 2 ^ Suc k" using k(1) by simp
      moreover have "(2::nat) ^ Suc k \<le> 2 * N + 2" using k(2) by simp
      moreover have "(2::nat) ^ Suc k \<noteq> 2 * N + 1" 
        by (metis even_power even_Suc Suc_eq_plus1 dvd_triv_left zero_less_Suc even_numeral)
      ultimately have "N \<le> 2 ^ Suc k \<and> 2 ^ Suc k \<le> 2 * N \<or> 2 ^ Suc k = 2 * N + 2" by linarith
      then show ?thesis
      proof
        assume "N \<le> 2 ^ Suc k \<and> 2 ^ Suc k \<le> 2 * N"
        then show ?thesis by blast
      next
        assume "2 ^ Suc k = 2 * N + 2"
        then have "(2::nat) ^ k = N + 1" by simp
        then have "N \<le> 2 ^ k \<and> 2 ^ k \<le> 2 * N" using less.prems by simp
        then show ?thesis by blast
      qed
    qed
  qed
  then obtain k where "N \<le> 2 ^ k" "2 * 2 ^ k \<le> 4 * N" by auto
  then show ?thesis unfolding fits_def by auto
qed

subsection \<open>Nodes as \<^verbatim>\<open>int\<close>s\<close>

lemma wnode_slot: "wnode v tL tR L \<Longrightarrow> unat v < L \<and> L < 2 ^ 31"
  unfolding wnode_def using fits_bound by blast

lemma load_ok:
  assumes "unat v < length (seg_t s)" "length (seg_t s) < 2 ^ 31"
  shows "load s v = Some (Inr (seg_t s ! unat v))"
proof -
  have "unat v < 2 ^ 31" using assms by simp
  then have "in_range (seg_t s) v" using assms(1) by (rule in_rangeI)
  then show ?thesis by (simp add: load_def vec_get_def)
qed

lemma store_ok:
  assumes "unat v < length (seg_t s)" "length (seg_t s) < 2 ^ 31"
  shows "store v x s = Some (Inr (s\<lparr>seg_t := (seg_t s)[unat v := x]\<rparr>))"
proof -
  have "unat v < 2 ^ 31" using assms by simp
  then have "in_range (seg_t s) v" using assms(1) by (rule in_rangeI)
  then show ?thesis by (simp add: store_def vec_set_def)
qed

lemma wnode_children:
  assumes "wnode v tL tR L" "tL \<noteq> tR"
  shows "unat tL < unat tR"
    and "unat (tm_of tL tR) = unat tL + (unat tR - unat tL) div 2"
    and "unat (tm_of tL tR + 1) = unat tL + (unat tR - unat tL) div 2 + 1"
    and "unat (v * 2) = 2 * unat v"
    and "unat (v * 2 + 1) = 2 * unat v + 1"
    and "wnode (v * 2) tL (tm_of tL tR) L"
    and "wnode (v * 2 + 1) (tm_of tL tR + 1) tR L"
    and "2 * unat v + 1 < L"
proof -
  from assms(1) have le: "unat tL \<le> unat tR" and tR: "unat tR < 2 ^ 31" and L: "L < 2 ^ 31"
    and v1: "1 \<le> unat v" and f: "fits (unat v) (unat tR - unat tL + 1) L"
    by (simp_all add: wnode_def)
  have "unat tL \<noteq> unat tR" using assms(2) by (simp add: word_unat_eq_iff)
  then show lt: "unat tL < unat tR" using le by simp
  show tm: "unat (tm_of tL tR) = unat tL + (unat tR - unat tL) div 2"
    using le tR by (rule tm_unat)
  have tmlt: "unat (tm_of tL tR) < unat tR" using tm lt by simp
  then have "unat (tm_of tL tR) < 2 ^ 32 - 1" using tR by simp
  then have "unat (tm_of tL tR + 1) = unat (tm_of tL tR) + 1" by (rule unat_succ)
  then show tm1: "unat (tm_of tL tR + 1) = unat tL + (unat tR - unat tL) div 2 + 1"
    using tm by simp
  note fc = fits_children [OF f lt]
  show inb: "2 * unat v + 1 < L" by (rule fc(3))
  then have "unat v < 2 ^ 31" using L by simp
  then show v2: "unat (v * 2) = 2 * unat v" by (rule unat_twice)
  have "unat (v * 2) < 2 ^ 32 - 1" using v2 inb L by simp
  then have "unat (v * 2 + 1) = unat (v * 2) + 1" by (rule unat_succ)
  then show v21: "unat (v * 2 + 1) = 2 * unat v + 1" using v2 by simp
  show "wnode (v * 2) tL (tm_of tL tR) L"
    unfolding wnode_def using fc(1) tm v2 v1 L tR lt by simp
  show "wnode (v * 2 + 1) (tm_of tL tR + 1) tR L"
    unfolding wnode_def using fc(2) tm1 v21 L tR lt by simp
qed

subsection \<open>The three recursive helpers on a node\<close>

lemma node_ok_here: "node_ok xs t v tL tR \<Longrightarrow> v < length t \<and> t ! v = fold_range xs tL tR"
  by (simp add: node_ok.simps [of xs t v tL tR])

lemma node_ok_kids:
  "node_ok xs t v tL tR \<Longrightarrow> tL < tR \<Longrightarrow>
     node_ok xs t (2 * v) tL (tL + (tR - tL) div 2) \<and>
     node_ok xs t (2 * v + 1) (tL + (tR - tL) div 2 + 1) tR"
  by (simp add: node_ok.simps [of xs t v tL tR])

lemma node_okI:
  assumes "v < length t" "t ! v = fold_range xs tL tR"
    and "tL < tR \<Longrightarrow> node_ok xs t (2 * v) tL (tL + (tR - tL) div 2)"
    and "tL < tR \<Longrightarrow> node_ok xs t (2 * v + 1) (tL + (tR - tL) div 2 + 1) tR"
  shows "node_ok xs t v tL tR"
  using assms by (simp add: node_ok.simps [of xs t v tL tR])

text \<open>Storing the merge of the two children in a node whose children are in order.\<close>

lemma node_ok_join:
  assumes kids: "node_ok xs t (2 * v) tL (tL + (tR - tL) div 2)"
      "node_ok xs t (2 * v + 1) (tL + (tR - tL) div 2 + 1) tR"
    and lt: "tL < tR" and v: "1 \<le> v" "v < length t"
  shows "node_ok xs (t[v := merge (t ! (2 * v)) (t ! (2 * v + 1))]) v tL tR"
proof -
  let ?tm = "tL + (tR - tL) div 2"
  let ?t' = "t[v := merge (t ! (2 * v)) (t ! (2 * v + 1))]"
  have same: "?t' ! u = t ! u" if "u \<noteq> v" for u using that by simp
  have l: "node_ok xs ?t' (2 * v) tL ?tm"
  proof (rule node_ok_cong [OF kids(1)])
    show "?t' ! u = t ! u" if "desc (2 * v) u" for u
      using that desc_not_self(1) [OF v(1)] by (cases "u = v") simp_all
  qed simp_all
  have r: "node_ok xs ?t' (2 * v + 1) (?tm + 1) tR"
  proof (rule node_ok_cong [OF kids(2)])
    show "?t' ! u = t ! u" if "desc (2 * v + 1) u" for u
      using that desc_not_self(2) [OF v(1)] by (cases "u = v") simp_all
  qed simp_all
  have "fold_range xs tL tR = merge (fold_range xs tL ?tm) (fold_range xs (Suc ?tm) tR)"
    by (rule fold_range_split) (use lt in simp_all)
  then have "?t' ! v = fold_range xs tL tR"
    using node_ok_here [OF kids(1)] node_ok_here [OF kids(2)] v(2) by simp
  then show ?thesis
    using l r v(2) by (intro node_okI [of v ?t' xs tL tR]) simp_all
qed

lemma build_correct:
  assumes "wnode v tL tR (length (seg_t s))" "unat tR < length a"
  shows "\<exists>s'. build a v tL tR s = Some (Inr s') \<and> seg_n s' = seg_n s \<and>
           length (seg_t s') = length (seg_t s) \<and>
           node_ok (map scast a) (seg_t s') (unat v) (unat tL) (unat tR) \<and>
           (\<forall>u. \<not> desc (unat v) u \<longrightarrow> seg_t s' ! u = seg_t s ! u)"
  using assms
proof (induction "unat tR - unat tL" arbitrary: v tL tR s rule: less_induct)
  case less
  note slot = wnode_slot [OF less.prems(1)]
  have tRlt: "unat tR < 2 ^ 31" using less.prems(1) by (simp add: wnode_def)
  have v1: "1 \<le> unat v" using less.prems(1) by (simp add: wnode_def)
  show ?case
  proof (cases "tL = tR")
    case True
    let ?s' = "s\<lparr>seg_t := (seg_t s)[unat v := scast (a ! unat tR)]\<rparr>"
    have "in_range a tR" using tRlt less.prems(2) by (intro in_rangeI) simp_all
    then have get: "vec_get a tR = Inr (a ! unat tR)" by (simp add: vec_get_def)
    have st0: "store v (scast (a ! unat tR)) s = Some (Inr ?s')"
      using store_ok [of v s] slot by simp
    have b: "build a v tL tR s = Some (Inr ?s')"
      by (subst build.simps) (simp add: True get rbind_simps st0)
    have "fold_range (map scast a) (unat tR) (unat tR) = scast (a ! unat tR)"
      using less.prems(2) by (simp add: fold_range_single)
    then have ok: "node_ok (map scast a) (seg_t ?s') (unat v) (unat tL) (unat tR)"
      using slot True by (simp add: node_ok.simps [of _ _ "unat v" "unat tR" "unat tR"])
    have fr: "seg_t ?s' ! u = seg_t s ! u" if "\<not> desc (unat v) u" for u
      using that desc_refl [of "unat v"] by (cases "u = unat v") simp_all
    show ?thesis using b ok fr by simp
  next
    case False
    note ch = wnode_children [OF less.prems(1) False]
    let ?tm = "tm_of tL tR"
    let ?xs = "map scast a"
    have m1: "unat ?tm - unat tL < unat tR - unat tL" using ch(1,2) by simp
    have a1: "unat ?tm < length a" using ch(1,2) less.prems(2) by simp
    from less.hyps [OF m1 ch(6) a1]
    obtain s1 where s1: "build a (v * 2) tL ?tm s = Some (Inr s1)"
      and n1: "seg_n s1 = seg_n s" and len1: "length (seg_t s1) = length (seg_t s)"
      and ok1: "node_ok ?xs (seg_t s1) (unat (v * 2)) (unat tL) (unat ?tm)"
      and fr1: "\<forall>u. \<not> desc (unat (v * 2)) u \<longrightarrow> seg_t s1 ! u = seg_t s ! u"
      by (elim exE conjE)
    have m2: "unat tR - unat (?tm + 1) < unat tR - unat tL" using ch(1,3) by simp
    have w2: "wnode (v * 2 + 1) (?tm + 1) tR (length (seg_t s1))"
      using ch(7) len1 by simp
    from less.hyps [OF m2 w2 less.prems(2)]
    obtain s2 where s2: "build a (v * 2 + 1) (?tm + 1) tR s1 = Some (Inr s2)"
      and n2: "seg_n s2 = seg_n s1" and len2: "length (seg_t s2) = length (seg_t s1)"
      and ok2: "node_ok ?xs (seg_t s2) (unat (v * 2 + 1)) (unat (?tm + 1)) (unat tR)"
      and fr2: "\<forall>u. \<not> desc (unat (v * 2 + 1)) u \<longrightarrow> seg_t s2 ! u = seg_t s1 ! u"
      by (elim exE conjE)
    let ?t2 = "seg_t s2"
    let ?s' = "s2\<lparr>seg_t := ?t2[unat v := merge (?t2 ! (2 * unat v)) (?t2 ! (2 * unat v + 1))]\<rparr>"
    have len: "length ?t2 = length (seg_t s)" using len1 len2 by simp
    have ld1: "load s2 (v * 2) = Some (Inr (?t2 ! (2 * unat v)))"
      using load_ok [of "v * 2" s2] ch(4,8) len slot by simp
    have ld2: "load s2 (v * 2 + 1) = Some (Inr (?t2 ! (2 * unat v + 1)))"
      using load_ok [of "v * 2 + 1" s2] ch(5,8) len slot by simp
    have inb: "unat v < length ?t2" "length ?t2 < 2 ^ 31" using slot len by simp_all
    have st: "store v (merge (?t2 ! (2 * unat v)) (?t2 ! (2 * unat v + 1))) s2 = Some (Inr ?s')"
      by (rule store_ok [OF inb])
    have b: "build a v tL tR s = Some (Inr ?s')"
      by (subst build.simps) (simp only: False if_False Let_def s1 s2 ld1 ld2 st rbind_simps)
    have okl: "node_ok ?xs ?t2 (2 * unat v) (unat tL) (unat tL + (unat tR - unat tL) div 2)"
    proof (rule node_ok_cong)
      show "node_ok ?xs (seg_t s1) (2 * unat v) (unat tL) (unat tL + (unat tR - unat tL) div 2)"
        using ok1 ch(2,4) by simp
      show "?t2 ! u = seg_t s1 ! u" if "desc (2 * unat v) u" for u
        using that desc_siblings [OF v1] fr2 ch(5) by simp
    qed (simp_all add: len2)
    have okr: "node_ok ?xs ?t2 (2 * unat v + 1) (unat tL + (unat tR - unat tL) div 2 + 1) (unat tR)"
      using ok2 ch(3,5) by simp
    have ok: "node_ok ?xs (seg_t ?s') (unat v) (unat tL) (unat tR)"
      using node_ok_join [OF okl okr ch(1) v1] slot len by simp
    have fr: "seg_t ?s' ! u = seg_t s ! u" if nd: "\<not> desc (unat v) u" for u
    proof -
      have "u \<noteq> unat v" using nd desc_refl by blast
      moreover have "\<not> desc (unat (v * 2)) u" "\<not> desc (unat (v * 2 + 1)) u"
        using nd desc_child [of "unat v" u] ch(4,5) by auto
      ultimately show ?thesis using fr1 fr2 by simp
    qed
    show ?thesis using b ok fr n1 n2 len by simp
  qed
qed

lemma int_min_unat:
  "unat (a::cint) < 2 ^ 31 \<Longrightarrow> unat b < 2 ^ 31 \<Longrightarrow> unat (int_min a b) = min (unat a) (unat b)"
  by (simp add: int_min_def sless_unat min_def)

lemma int_max_unat:
  "unat (a::cint) < 2 ^ 31 \<Longrightarrow> unat b < 2 ^ 31 \<Longrightarrow> unat (int_max a b) = max (unat a) (unat b)"
  by (simp add: int_max_def sless_unat max_def)

lemma update_correct:
  assumes "wnode v tL tR (length (seg_t s))"
    and "node_ok xs (seg_t s) (unat v) (unat tL) (unat tR)"
    and "unat tL \<le> unat pos" "unat pos \<le> unat tR" "unat tR < length xs"
  shows "\<exists>s'. update_recursive v tL tR pos x s = Some (Inr s') \<and> seg_n s' = seg_n s \<and>
           length (seg_t s') = length (seg_t s) \<and>
           node_ok (xs[unat pos := x]) (seg_t s') (unat v) (unat tL) (unat tR) \<and>
           (\<forall>u. \<not> desc (unat v) u \<longrightarrow> seg_t s' ! u = seg_t s ! u)"
  using assms
proof (induction "unat tR - unat tL" arbitrary: v tL tR s rule: less_induct)
  case less
  note slot = wnode_slot [OF less.prems(1)]
  have tRlt: "unat tR < 2 ^ 31" using less.prems(1) by (simp add: wnode_def)
  have v1: "1 \<le> unat v" using less.prems(1) by (simp add: wnode_def)
  let ?xs' = "xs[unat pos := x]"
  show ?case
  proof (cases "tL = tR")
    case True
    let ?s' = "s\<lparr>seg_t := (seg_t s)[unat v := x]\<rparr>"
    have st0: "store v x s = Some (Inr ?s')"
      using store_ok [of v s] slot by simp
    have b: "update_recursive v tL tR pos x s = Some (Inr ?s')"
      by (subst update_recursive.simps) (simp add: True st0)
    have p: "unat pos = unat tR" using less.prems(3,4) True by simp
    have "fold_range ?xs' (unat tR) (unat tR) = x"
      using less.prems(5) p by (simp add: fold_range_single)
    then have ok: "node_ok ?xs' (seg_t ?s') (unat v) (unat tL) (unat tR)"
      using slot True by (simp add: node_ok.simps [of _ _ "unat v" "unat tR" "unat tR"])
    have fr: "seg_t ?s' ! u = seg_t s ! u" if "\<not> desc (unat v) u" for u
      using that desc_refl [of "unat v"] by (cases "u = unat v") simp_all
    show ?thesis using b ok fr by simp
  next
    case False
    note ch = wnode_children [OF less.prems(1) False]
    note kids = node_ok_kids [OF less.prems(2) ch(1)]
    let ?tm = "tm_of tL tR"
    let ?m = "unat tL + (unat tR - unat tL) div 2"
    have tmlt: "unat ?tm < 2 ^ 31" using ch(1,2) tRlt by simp
    have poslt: "unat pos < 2 ^ 31" using less.prems(4) tRlt by simp
    have cmp: "pos \<le>s ?tm \<longleftrightarrow> unat pos \<le> ?m"
      using sle_unat [OF poslt tmlt] ch(2) by simp
    have "\<exists>s1. (if pos \<le>s ?tm then update_recursive (v * 2) tL ?tm pos x s
                 else update_recursive (v * 2 + 1) (?tm + 1) tR pos x s) = Some (Inr s1) \<and>
             seg_n s1 = seg_n s \<and> length (seg_t s1) = length (seg_t s) \<and>
             node_ok ?xs' (seg_t s1) (2 * unat v) (unat tL) ?m \<and>
             node_ok ?xs' (seg_t s1) (2 * unat v + 1) (?m + 1) (unat tR) \<and>
             (\<forall>u. \<not> desc (unat v) u \<longrightarrow> seg_t s1 ! u = seg_t s ! u)"
    proof (cases "unat pos \<le> ?m")
      case True
      have m1: "unat ?tm - unat tL < unat tR - unat tL" using ch(1,2) by simp
      have o1: "node_ok xs (seg_t s) (unat (v * 2)) (unat tL) (unat ?tm)"
        using kids ch(2,4) by simp
      have p1: "unat pos \<le> unat ?tm" using True ch(2) by simp
      have a1: "unat ?tm < length xs" using ch(1,2) less.prems(5) by simp
      from less.hyps [OF m1 ch(6) o1 less.prems(3) p1 a1]
      obtain s1 where s1: "update_recursive (v * 2) tL ?tm pos x s = Some (Inr s1)"
        and n1: "seg_n s1 = seg_n s" and len1: "length (seg_t s1) = length (seg_t s)"
        and ok1: "node_ok ?xs' (seg_t s1) (unat (v * 2)) (unat tL) (unat ?tm)"
        and fr1: "\<forall>u. \<not> desc (unat (v * 2)) u \<longrightarrow> seg_t s1 ! u = seg_t s ! u"
        by (elim exE conjE)
      have okr: "node_ok ?xs' (seg_t s1) (2 * unat v + 1) (?m + 1) (unat tR)"
      proof (rule node_ok_cong)
        show "node_ok xs (seg_t s) (2 * unat v + 1) (?m + 1) (unat tR)" using kids by simp
        show "seg_t s1 ! u = seg_t s ! u" if "desc (2 * unat v + 1) u" for u
          using that desc_siblings [OF v1] fr1 ch(4) by auto
        show "?xs' ! i = xs ! i" if "?m + 1 \<le> i" for i
          using that True by simp
      qed (simp_all add: len1)
      have fr: "seg_t s1 ! u = seg_t s ! u" if "\<not> desc (unat v) u" for u
        using that desc_child [of "unat v" u] fr1 ch(4) by auto
      show ?thesis using s1 n1 len1 ok1 okr fr True cmp ch(2,4) by simp
    next
      case F: False
      have m2: "unat tR - unat (?tm + 1) < unat tR - unat tL" using ch(1,3) by simp
      have o2: "node_ok xs (seg_t s) (unat (v * 2 + 1)) (unat (?tm + 1)) (unat tR)"
        using kids ch(3,5) by simp
      have p2: "unat (?tm + 1) \<le> unat pos" using F ch(3) by simp
      from less.hyps [OF m2 ch(7) o2 p2 less.prems(4,5)]
      obtain s1 where s1: "update_recursive (v * 2 + 1) (?tm + 1) tR pos x s = Some (Inr s1)"
        and n1: "seg_n s1 = seg_n s" and len1: "length (seg_t s1) = length (seg_t s)"
        and ok1: "node_ok ?xs' (seg_t s1) (unat (v * 2 + 1)) (unat (?tm + 1)) (unat tR)"
        and fr1: "\<forall>u. \<not> desc (unat (v * 2 + 1)) u \<longrightarrow> seg_t s1 ! u = seg_t s ! u"
        by (elim exE conjE)
      have okl: "node_ok ?xs' (seg_t s1) (2 * unat v) (unat tL) ?m"
      proof (rule node_ok_cong)
        show "node_ok xs (seg_t s) (2 * unat v) (unat tL) ?m" using kids by simp
        show "seg_t s1 ! u = seg_t s ! u" if "desc (2 * unat v) u" for u
          using that desc_siblings [OF v1] fr1 ch(5) by auto
        show "?xs' ! i = xs ! i" if "i \<le> ?m" for i
          using that F by simp
      qed (simp_all add: len1)
      have fr: "seg_t s1 ! u = seg_t s ! u" if "\<not> desc (unat v) u" for u
        using that desc_child [of "unat v" u] fr1 ch(5) by auto
      show ?thesis using s1 n1 len1 ok1 okl fr F cmp ch(3,5) by simp
    qed
    then obtain s1 where s1: "(if pos \<le>s ?tm then update_recursive (v * 2) tL ?tm pos x s
                 else update_recursive (v * 2 + 1) (?tm + 1) tR pos x s) = Some (Inr s1)"
      and n1: "seg_n s1 = seg_n s" and len1: "length (seg_t s1) = length (seg_t s)"
      and okl: "node_ok ?xs' (seg_t s1) (2 * unat v) (unat tL) ?m"
      and okr: "node_ok ?xs' (seg_t s1) (2 * unat v + 1) (?m + 1) (unat tR)"
      and fr1: "\<forall>u. \<not> desc (unat v) u \<longrightarrow> seg_t s1 ! u = seg_t s ! u"
      by (elim exE conjE)
    let ?t1 = "seg_t s1"
    let ?s' = "s1\<lparr>seg_t := ?t1[unat v := merge (?t1 ! (2 * unat v)) (?t1 ! (2 * unat v + 1))]\<rparr>"
    have inb: "unat v < length ?t1" "length ?t1 < 2 ^ 31" using slot len1 by simp_all
    have ld1: "load s1 (v * 2) = Some (Inr (?t1 ! (2 * unat v)))"
      using load_ok [of "v * 2" s1] ch(4,8) len1 slot by simp
    have ld2: "load s1 (v * 2 + 1) = Some (Inr (?t1 ! (2 * unat v + 1)))"
      using load_ok [of "v * 2 + 1" s1] ch(5,8) len1 slot by simp
    have st: "store v (merge (?t1 ! (2 * unat v)) (?t1 ! (2 * unat v + 1))) s1 = Some (Inr ?s')"
      by (rule store_ok [OF inb])
    have b: "update_recursive v tL tR pos x s = Some (Inr ?s')"
      by (subst update_recursive.simps) (simp only: False if_False Let_def s1 ld1 ld2 st rbind_simps)
    have ok: "node_ok ?xs' (seg_t ?s') (unat v) (unat tL) (unat tR)"
      using node_ok_join [OF okl okr ch(1) v1] inb by simp
    have fr: "seg_t ?s' ! u = seg_t s ! u" if nd: "\<not> desc (unat v) u" for u
    proof -
      have "u \<noteq> unat v" using nd desc_refl by blast
      then show ?thesis using fr1 nd by simp
    qed
    show ?thesis using b ok fr n1 len1 by simp
  qed
qed

lemma query_correct:
  assumes "wnode v tL tR (length (seg_t s))"
    and "node_ok xs (seg_t s) (unat v) (unat tL) (unat tR)"
    and "unat l < 2 ^ 31" "unat r < 2 ^ 31"
    and "unat l \<le> unat r \<Longrightarrow> unat tL \<le> unat l \<and> unat r \<le> unat tR"
  shows "query_recursive v tL tR l r s = Some (Inr (fold_range xs (unat l) (unat r), s))"
  using assms
proof (induction "unat tR - unat tL" arbitrary: v tL tR l r rule: less_induct)
  case less
  note slot = wnode_slot [OF less.prems(1)]
  have tRlt: "unat tR < 2 ^ 31" using less.prems(1) by (simp add: wnode_def)
  have cmp: "r <s l \<longleftrightarrow> unat r < unat l"
    by (rule sless_unat [OF less.prems(4,3)])
  show ?case
  proof (cases "unat r < unat l")
    case True
    then show ?thesis
      by (subst query_recursive.simps) (simp add: cmp fold_range_empty)
  next
    case le: False
    then have in1: "unat tL \<le> unat l" "unat r \<le> unat tR" using less.prems(5) by simp_all
    show ?thesis
    proof (cases "l = tL \<and> r = tR")
      case True
      have ld: "load s v = Some (Inr (seg_t s ! unat v))"
        using load_ok [of v s] slot by simp
      have val: "seg_t s ! unat v = fold_range xs (unat tL) (unat tR)"
        using node_ok_here [OF less.prems(2)] by simp
      have nlt: "\<not> tR <s tL" using cmp le True by simp
      have "query_recursive v tL tR tL tR s = Some (Inr (seg_t s ! unat v, s))"
        by (subst query_recursive.simps) (simp add: nlt ld rbind_simps)
      then show ?thesis using True val by simp
    next
      case nx: False
      have ne: "tL \<noteq> tR"
      proof
        assume "tL = tR"
        then have "unat l = unat tL" "unat r = unat tR" using in1 le by simp_all
        then show False using nx by (simp add: word_unat_eq_iff)
      qed
      note ch = wnode_children [OF less.prems(1) ne]
      note kids = node_ok_kids [OF less.prems(2) ch(1)]
      let ?tm = "tm_of tL tR"
      let ?m = "unat tL + (unat tR - unat tL) div 2"
      have tmlt: "unat ?tm < 2 ^ 31" "unat (?tm + 1) < 2 ^ 31" using ch(1,2,3) tRlt by simp_all
      have rmin: "unat (int_min r ?tm) = min (unat r) ?m"
        using int_min_unat [OF less.prems(4) tmlt(1)] ch(2) by simp
      have lmax: "unat (int_max l (?tm + 1)) = max (unat l) (Suc ?m)"
        using int_max_unat [OF less.prems(3) tmlt(2)] ch(3) by simp
      have m1: "unat ?tm - unat tL < unat tR - unat tL" using ch(1,2) by simp
      have o1: "node_ok xs (seg_t s) (unat (v * 2)) (unat tL) (unat ?tm)"
        using kids ch(2,4) by simp
      have b1: "unat (int_min r ?tm) < 2 ^ 31" using rmin less.prems(4) by simp
      have c1: "unat l \<le> unat (int_min r ?tm) \<Longrightarrow>
          unat tL \<le> unat l \<and> unat (int_min r ?tm) \<le> unat ?tm"
        using rmin in1 ch(2) by simp
      have q1: "query_recursive (v * 2) tL ?tm l (int_min r ?tm) s =
          Some (Inr (fold_range xs (unat l) (min (unat r) ?m), s))"
        using less.hyps [OF m1 ch(6) o1 less.prems(3) b1 c1] rmin by simp
      have m2: "unat tR - unat (?tm + 1) < unat tR - unat tL" using ch(1,3) by simp
      have o2: "node_ok xs (seg_t s) (unat (v * 2 + 1)) (unat (?tm + 1)) (unat tR)"
        using kids ch(3,5) by simp
      have b2: "unat (int_max l (?tm + 1)) < 2 ^ 31" using lmax less.prems(3) tmlt ch(3) by simp
      have c2: "unat (int_max l (?tm + 1)) \<le> unat r \<Longrightarrow>
          unat (?tm + 1) \<le> unat (int_max l (?tm + 1)) \<and> unat r \<le> unat tR"
        using lmax in1 ch(3) by simp
      have q2: "query_recursive (v * 2 + 1) (?tm + 1) tR (int_max l (?tm + 1)) r s =
          Some (Inr (fold_range xs (max (unat l) (Suc ?m)) (unat r), s))"
        using less.hyps [OF m2 ch(7) o2 b2 less.prems(4) c2] lmax by simp
      have nlt: "\<not> r <s l" using cmp le by simp
      have "query_recursive v tL tR l r s =
          Some (Inr (merge (fold_range xs (unat l) (min (unat r) ?m))
                           (fold_range xs (max (unat l) (Suc ?m)) (unat r)), s))"
        by (subst query_recursive.simps)
          (simp only: nlt nx if_False Let_def q1 q2 rbind_simps prod.case)
      moreover have "unat l \<le> unat r" using le by simp
      ultimately show ?thesis using fold_range_clamp [of "unat l" "unat r" xs ?m] by simp
    qed
  qed
qed

subsection \<open>The whole tree\<close>

lemma node_ok_nodes:
  "node_ok xs t v tL tR \<longleftrightarrow>
     (\<forall>(u, l, r) \<in> set (nodes v tL tR). u < length t \<and> t ! u = fold_range xs l r)"
proof (induction xs t v tL tR rule: node_ok.induct)
  case (1 xs t v tL tR)
  let ?P = "\<lambda>(u, l, r). u < length t \<and> t ! u = fold_range xs l r"
  let ?tm = "tL + (tR - tL) div 2"
  show ?case
  proof (cases "tL < tR")
    case True
    have n: "node_ok xs t v tL tR \<longleftrightarrow>
        v < length t \<and> t ! v = fold_range xs tL tR \<and>
        node_ok xs t (2 * v) tL ?tm \<and> node_ok xs t (2 * v + 1) (?tm + 1) tR"
      by (subst node_ok.simps) (simp add: True)
    have "nodes v tL tR = (v, tL, tR) # (nodes (2 * v) tL ?tm @ nodes (2 * v + 1) (?tm + 1) tR)"
      by (subst nodes.simps) (simp add: True)
    then have "(\<forall>x \<in> set (nodes v tL tR). ?P x) \<longleftrightarrow>
        ?P (v, tL, tR) \<and> (\<forall>x \<in> set (nodes (2 * v) tL ?tm). ?P x) \<and>
        (\<forall>x \<in> set (nodes (2 * v + 1) (?tm + 1) tR). ?P x)"
      by (simp only: set_simps set_append ball_simps ball_Un)
    then show ?thesis
      using "1.IH" [OF True] n by simp
  next
    case False
    have "node_ok xs t v tL tR \<longleftrightarrow> v < length t \<and> t ! v = fold_range xs tL tR"
      by (subst node_ok.simps) (simp add: False)
    moreover have "nodes v tL tR = [(v, tL, tR)]"
      by (subst nodes.simps) (simp add: False)
    ultimately show ?thesis by simp
  qed
qed

lemma tree_inv_alt:
  "tree_inv s xs \<longleftrightarrow>
     xs \<noteq> [] \<and> 4 * length xs < 2 ^ 31 \<and>
     seg_n s = word_of_nat (length xs) \<and>
     length (seg_t s) = 4 * length xs \<and>
     node_ok xs (seg_t s) 1 0 (length xs - 1)"
  by (simp add: tree_inv_def node_ok_nodes)

lemma tree_inv_root:
  assumes "tree_inv s xs"
  shows "wnode 1 0 (seg_n s - 1) (length (seg_t s))"
    and "unat (seg_n s - 1) = length xs - 1"
    and "node_ok xs (seg_t s) (unat (1::cint)) (unat (0::cint)) (unat (seg_n s - 1))"
    and "unat (seg_n s) = length xs"
proof -
  from assms have ne: "1 \<le> length xs" and sz: "4 * length xs < 2 ^ 31"
    and n: "seg_n s = word_of_nat (length xs)" and len: "length (seg_t s) = 4 * length xs"
    and ok: "node_ok xs (seg_t s) 1 0 (length xs - 1)"
    by (simp_all add: tree_inv_alt Suc_le_eq)
  have "length xs < 2 ^ 32" using sz by simp
  then show un: "unat (seg_n s) = length xs" using n by (simp add: unat_of_nat32)
  have "unat (1::cint) \<le> unat (seg_n s)" using un ne by simp
  then have "unat (seg_n s - 1) = unat (seg_n s) - unat (1::cint)" by (rule unat_diff)
  then show u1: "unat (seg_n s - 1) = length xs - 1" using un by simp
  have "fits 1 (length xs) (4 * length xs)" using ne by (rule fits_root)
  moreover have "length xs - 1 + 1 = length xs" using ne by simp
  ultimately have "fits (unat (1::cint)) (unat (seg_n s - 1) - unat (0::cint) + 1) (length (seg_t s))"
    using u1 len by simp
  then show "wnode 1 0 (seg_n s - 1) (length (seg_t s))"
    unfolding wnode_def using u1 len sz ne by simp
  show "node_ok xs (seg_t s) (unat (1::cint)) (unat (0::cint)) (unat (seg_n s - 1))"
    using ok u1 by simp
qed

lemma ctor_correct:
  assumes "1 \<le> length a" "4 * length a < 2 ^ 31"
  shows "\<exists>s. SegTree_ctor a = Some (Inr s) \<and> tree_inv s (map scast a)"
proof -
  let ?n = "word_of_nat (length a) :: cint"
  let ?m = "4 * ?n"
  let ?s0 = "\<lparr>seg_n = ?n, seg_t = replicate (unat ?m) 0\<rparr>"
  have "length a < 2 ^ 32" using assms(2) by simp
  then have un: "unat ?n = length a" by (rule unat_of_nat32)
  have "unat (4::cint) * unat ?n < 2 ^ 32" using un assms(2) by simp
  then have "unat ?m = unat (4::cint) * unat ?n" using unat_mult_lem [of 4 ?n] by simp
  then have um: "unat ?m = 4 * length a" using un by simp
  then have "unat ?m < 2 ^ 31" using assms(2) by simp
  then have "sint ?m = uint ?m" by (rule sint_unat)
  then have nneg: "\<not> ?m <s 0" by (simp add: word_sless_alt)
  have "unat (1::cint) \<le> unat ?n" using un assms(1) by simp
  then have "unat (?n - 1) = unat ?n - unat (1::cint)" by (rule unat_diff)
  then have u1: "unat (?n - 1) = length a - 1" using un by simp
  have "fits 1 (length a) (4 * length a)" using assms(1) by (rule fits_root)
  moreover have "length a - 1 + 1 = length a" using assms(1) by simp
  ultimately have "fits (unat (1::cint)) (unat (?n - 1) - unat (0::cint) + 1) (length (seg_t ?s0))"
    using u1 um by simp
  then have w: "wnode 1 0 (?n - 1) (length (seg_t ?s0))"
    unfolding wnode_def using u1 um assms by simp
  have "unat (?n - 1) < length a" using u1 assms(1) by simp
  from build_correct [OF w this]
  obtain s where b: "build a 1 0 (?n - 1) ?s0 = Some (Inr s)"
    and n: "seg_n s = seg_n ?s0" and len: "length (seg_t s) = length (seg_t ?s0)"
    and ok: "node_ok (map scast a) (seg_t s) (unat (1::cint)) (unat (0::cint)) (unat (?n - 1))"
    by (elim exE conjE)
  have c: "SegTree_ctor a = Some (Inr s)"
    unfolding SegTree_ctor_def Let_def using nneg b by simp
  have "tree_inv s (map scast a)"
    unfolding tree_inv_alt using assms n len ok u1 um by auto
  then show ?thesis using c by blast
qed

lemma update_inv:
  assumes "tree_inv s xs" "unat pos < length xs"
  shows "\<exists>s'. update pos x s = Some (Inr s') \<and> tree_inv s' (xs[unat pos := x])"
proof -
  note r = tree_inv_root [OF assms(1)]
  have p: "unat (0::cint) \<le> unat pos" "unat pos \<le> unat (seg_n s - 1)"
    "unat (seg_n s - 1) < length xs"
    using r(2) assms(2) by simp_all
  from update_correct [OF r(1) r(3) p, of x]
  obtain s' where u: "update_recursive 1 0 (seg_n s - 1) pos x s = Some (Inr s')"
    and n: "seg_n s' = seg_n s" and len: "length (seg_t s') = length (seg_t s)"
    and ok: "node_ok (xs[unat pos := x]) (seg_t s') (unat (1::cint)) (unat (0::cint))
               (unat (seg_n s - 1))"
    by (elim exE conjE)
  have "tree_inv s' (xs[unat pos := x])"
    using assms(1) n len ok r(2) unfolding tree_inv_alt by auto
  then show ?thesis using u by (auto simp: update_def)
qed

lemma query_inv:
  assumes "tree_inv s xs" "unat l \<le> unat r" "unat r < length xs"
  shows "query l r s = Some (Inr (fold_range xs (unat l) (unat r), s))"
proof -
  note rt = tree_inv_root [OF assms(1)]
  have sz: "4 * length xs < 2 ^ 31" using assms(1) by (simp add: tree_inv_alt)
  have b: "unat l < 2 ^ 31" "unat r < 2 ^ 31" using assms(2,3) sz by simp_all
  have c: "unat l \<le> unat r \<Longrightarrow> unat (0::cint) \<le> unat l \<and> unat r \<le> unat (seg_n s - 1)"
    using rt(2) assms(3) by simp
  show ?thesis
    unfolding query_def by (rule query_correct [OF rt(1) rt(3) b c])
qed

text \<open>Valid arguments, as the caller's \<^verbatim>\<open>int\<close>s.\<close>

lemma valid_pos:
  assumes "tree_inv s xs" "0 \<le>s pos" "pos <s seg_n s"
  shows "unat pos < length xs"
proof -
  note rt = tree_inv_root [OF assms(1)]
  have sz: "4 * length xs < 2 ^ 31" using assms(1) by (simp add: tree_inv_alt)
  have "0 \<le> sint pos" using assms(2) by (simp add: word_sle_eq)
  note p = sint_nonneg [OF this]
  have "unat (seg_n s) < 2 ^ 31" using rt(4) sz by simp
  then have "unat pos < unat (seg_n s)" using assms(3) p(2) by (simp add: sless_unat)
  then show ?thesis using rt(4) by simp
qed

lemma valid_range:
  assumes "tree_inv s xs" "0 \<le>s l" "l \<le>s r" "r <s seg_n s"
  shows "unat l \<le> unat r" "unat r < length xs"
proof -
  have "0 \<le> sint l" using assms(2) by (simp add: word_sle_eq)
  note pl = sint_nonneg [OF this]
  have "sint l \<le> sint r" using assms(3) by (simp add: word_sle_eq)
  then have "0 \<le> sint r" using \<open>0 \<le> sint l\<close> by simp
  note pr = sint_nonneg [OF this]
  show "unat l \<le> unat r" using assms(3) pl(2) pr(2) by (simp add: sle_unat)
  have "0 \<le>s r" using \<open>0 \<le> sint r\<close> by (simp add: word_sle_eq)
  from valid_pos [OF assms(1) this assms(4)] show "unat r < length xs" .
qed

subsection \<open>Sizes the constructor cannot serve\<close>

lemma store_fail: "\<not> in_range (seg_t s) v \<Longrightarrow> store v x s = Some (Inl OutOfBounds)"
  by (simp add: store_def vec_set_def)

lemma build_leftmost_fail:
  assumes "unat tR < 2 ^ k" "k = 0 \<or> 2 ^ (k - 1) \<le> unat tR" "k \<le> 31"
    and "\<not> in_range (seg_t s) (v * 2 ^ k)"
  shows "\<exists>e. build a v 0 tR s = Some (Inl e)"
  using assms
proof (induction k arbitrary: v tR)
  case 0
  then have "unat tR = 0" by simp
  then have z: "tR = 0" by (simp add: unat_eq_zero)
  have nr: "\<not> in_range (seg_t s) v" using "0.prems"(4) by simp
  show ?case
  proof (cases "vec_get a (0::cint)")
    case (Inl e)
    then show ?thesis
      by (subst build.simps) (simp add: z rbind_simps)
  next
    case (Inr x)
    then show ?thesis
      by (subst build.simps) (simp add: z rbind_simps store_fail [OF nr])
  qed
next
  case (Suc j)
  have lo: "2 ^ j \<le> unat tR" using Suc.prems(2) by simp
  then have "unat tR \<noteq> 0" by (metis not_one_le_zero one_le_numeral one_le_power le_trans)
  then have nz: "(0::cint) \<noteq> tR" by auto
  have "(2::nat) ^ Suc j \<le> 2 ^ 31" using Suc.prems(3) by (intro power_increasing) simp_all
  then have t31: "unat tR < 2 ^ 31" using Suc.prems(1) by simp
  have "unat (0::cint) \<le> unat tR" by simp
  from tm_unat [OF this t31] have tm: "unat (tm_of 0 tR) = unat tR div 2" by simp
  have a1: "unat (tm_of 0 tR) < 2 ^ j" using tm Suc.prems(1) by simp
  have a2: "j = 0 \<or> 2 ^ (j - 1) \<le> unat (tm_of 0 tR)"
  proof (cases j)
    case 0
    then show ?thesis by simp
  next
    case (Suc i)
    then have "2 * 2 ^ i \<le> unat tR" using lo by simp
    then show ?thesis using tm Suc by simp
  qed
  have a3: "j \<le> 31" using Suc.prems(3) by simp
  have e: "v * 2 ^ Suc j = v * 2 * 2 ^ j" by simp
  have a4: "\<not> in_range (seg_t s) (v * 2 * 2 ^ j)" using Suc.prems(4) unfolding e .
  from Suc.IH [OF a1 a2 a3 a4] obtain e where "build a (v * 2) 0 (tm_of 0 tR) s = Some (Inl e)"
    by blast
  then have "build a v 0 tR s = Some (Inl e)"
    by (subst build.simps) (simp only: nz if_False Let_def rbind_simps)
  then show ?case by blast
qed

lemma ctor_empty: "SegTree_ctor [] = Some (Inl OutOfBounds)"
proof -
  let ?s0 = "\<lparr>seg_n = 0, seg_t = []\<rparr>"
  have tm: "tm_of 0 (- 1) = 0"
    by (simp add: tm_of_def int_div_def signed_divide_int_def)
  have "build [] 2 0 0 ?s0 = Some (Inl OutOfBounds)"
    by (subst build.simps) (simp add: vec_get_def in_range_def rbind_simps)
  then have "build [] 1 0 (- 1) ?s0 = Some (Inl OutOfBounds)"
    by (subst build.simps) (simp add: tm rbind_simps)
  then show ?thesis
    by (simp add: SegTree_ctor_def)
qed

lemma ctor_success_size:
  assumes "SegTree_ctor a = Some (Inr s)" "length a < 2 ^ 31"
  shows "1 \<le> length a \<and> 4 * length a < 2 ^ 31"
proof (rule ccontr)
  assume neg: "\<not> (1 \<le> length a \<and> 4 * length a < 2 ^ 31)"
  let ?N = "length a"
  let ?n = "word_of_nat ?N :: cint"
  let ?m = "4 * ?n"
  let ?s0 = "\<lparr>seg_n = ?n, seg_t = replicate (unat ?m) 0\<rparr>"
  have "?N < 2 ^ 32" using assms(2) by simp
  then have un: "unat ?n = ?N" by (rule unat_of_nat32)
  have um: "unat ?m = (4 * ?N) mod 2 ^ 32"
    using un by (simp add: unat_word_ariths)
  have "?N = 0 \<or> 536870912 \<le> ?N" using neg by (auto simp: Suc_le_eq)
  then consider "?N = 0" | "2 ^ 29 \<le> ?N" "?N < 2 ^ 30" | "2 ^ 30 \<le> ?N"
    by fastforce
  then have "\<exists>e. SegTree_ctor a = Some (Inl e)"
  proof cases
    case 1
    then show ?thesis using ctor_empty by simp
  next
    case 2
    then have "unat ?m = 4 * ?N" using um by simp
    then have "\<not> unat ?m < 2 ^ 31" using 2 by simp
    then have "\<not> 0 \<le> sint ?m" using sint_nonneg(2) [of ?m] by blast
    then have "?m <s 0" by (simp add: word_sless_alt)
    then show ?thesis by (simp add: SegTree_ctor_def Let_def)
  next
    case 3
    show ?thesis
    proof (cases "?m <s 0")
      case True
      then show ?thesis by (simp add: SegTree_ctor_def Let_def)
    next
      case False
      have "unat (1::cint) \<le> unat ?n" using un 3 by simp
      then have "unat (?n - 1) = unat ?n - unat (1::cint)" by (rule unat_diff)
      then have u1: "unat (?n - 1) = ?N - 1" using un by simp
      have "\<exists>e. build a 1 0 (?n - 1) ?s0 = Some (Inl e)"
      proof (cases "?N = 2 ^ 30")
        case True
        then have "unat ?m = 0" using um by simp
        then have e: "seg_t ?s0 = []" by simp
        have "\<not> in_range (seg_t ?s0) (1 * 2 ^ 30)"
          unfolding e by (simp add: in_range_def)
        moreover have "unat (?n - 1) < 2 ^ 30" "(30::nat) = 0 \<or> 2 ^ (30 - 1) \<le> unat (?n - 1)"
          using u1 True by simp_all
        ultimately show ?thesis
          by (intro build_leftmost_fail [where k = 30]) simp_all
      next
        case F: False
        have "\<not> (0::cint) \<le>s 1 * 2 ^ 31" by (simp add: word_sle_eq)
        then have "\<not> in_range (seg_t ?s0) (1 * 2 ^ 31)" by (simp add: in_range_def)
        moreover have "unat (?n - 1) < 2 ^ 31" "(31::nat) = 0 \<or> 2 ^ (31 - 1) \<le> unat (?n - 1)"
          using u1 3 F assms(2) by simp_all
        ultimately show ?thesis
          by (intro build_leftmost_fail [where k = 31]) simp_all
      qed
      then show ?thesis using False by (simp add: SegTree_ctor_def Let_def)
    qed
  qed
  then show False using assms(1) by auto
qed

lemma ctor_tree_inv:
  assumes "SegTree_ctor a = Some (Inr s)" "length a < 2 ^ 31"
  shows "tree_inv s (map scast a)"
proof -
  from ctor_success_size [OF assms] have "1 \<le> length a" "4 * length a < 2 ^ 31" by simp_all
  from ctor_correct [OF this] show ?thesis using assms(1) by auto
qed

subsection \<open>A query hands back the state it was given\<close>

lemma query_recursive_read_only:
  assumes "query_recursive v tL tR l r s = Some y"
  shows "\<forall>x s'. y = Inr (x, s') \<longrightarrow> s' = s"
  using assms
proof (rule query_recursive.raw_induct [rotated 1,
      where P = "\<lambda>v tL tR l r s y. \<forall>x s'. y = Inr (x, s') \<longrightarrow> s' = s"])
  fix f :: "cint \<Rightarrow> cint \<Rightarrow> cint \<Rightarrow> cint \<Rightarrow> cint \<Rightarrow> SegTree \<Rightarrow> (T \<times> SegTree) result"
  fix v tL tR l r s y
  assume IH: "\<And>v tL tR l r s y. f v tL tR l r s = Some y \<Longrightarrow> \<forall>x s'. y = Inr (x, s') \<longrightarrow> s' = s"
  assume eq: "(if r <s l then Some (Inr (IDENTITY, s))
      else if l = tL \<and> r = tR then rbind (load s v) (\<lambda>x. Some (Inr (x, s)))
      else let tm = tm_of tL tR in
        rbind (f (v * 2) tL tm l (int_min r tm) s) (\<lambda>(left_res, s1).
        rbind (f (v * 2 + 1) (tm + 1) tR (int_max l (tm + 1)) r s1) (\<lambda>(right_res, s2).
        Some (Inr (merge left_res right_res, s2))))) = Some y"
  show "\<forall>x s'. y = Inr (x, s') \<longrightarrow> s' = s"
  proof (cases "r <s l")
    case True
    then show ?thesis using eq by auto
  next
    case nlt: False
    show ?thesis
    proof (cases "l = tL \<and> r = tR")
      case True
      show ?thesis
      proof (intro allI impI)
        fix x s' assume y: "y = Inr (x, s')"
        then have "rbind (load s v) (\<lambda>x. Some (Inr (x, s))) = Some (Inr (x, s'))"
          using eq nlt True by simp
        from rbind_eq_Inr [OF this] show "s' = s" by auto
      qed
    next
      case False
      let ?tm = "tm_of tL tR"
      show ?thesis
      proof (intro allI impI)
        fix x s' assume y: "y = Inr (x, s')"
        from eq nlt False y
        have "rbind (f (v * 2) tL ?tm l (int_min r ?tm) s) (\<lambda>(left_res, s1).
          rbind (f (v * 2 + 1) (?tm + 1) tR (int_max l (?tm + 1)) r s1) (\<lambda>(right_res, s2).
          Some (Inr (merge left_res right_res, s2)))) = Some (Inr (x, s'))"
          by (simp add: Let_def)
        from rbind_eq_Inr [OF this] obtain a s1
          where q1: "f (v * 2) tL ?tm l (int_min r ?tm) s = Some (Inr (a, s1))"
          and e2: "rbind (f (v * 2 + 1) (?tm + 1) tR (int_max l (?tm + 1)) r s1)
            (\<lambda>(right_res, s2). Some (Inr (merge a right_res, s2))) = Some (Inr (x, s'))"
          by auto
        from rbind_eq_Inr [OF e2] obtain b s2
          where q2: "f (v * 2 + 1) (?tm + 1) tR (int_max l (?tm + 1)) r s1 = Some (Inr (b, s2))"
          and s2: "s2 = s'"
          by auto
        from IH [OF q1] have "s1 = s" by simp
        moreover from IH [OF q2] have "s2 = s1" by simp
        ultimately show "s' = s" using s2 by simp
      qed
    qed
  qed
qed

subsection \<open>Sequences of updates\<close>

lemma tree_inv_n: "tree_inv s xs \<Longrightarrow> tree_inv s' xs' \<Longrightarrow> length xs' = length xs \<Longrightarrow> seg_n s' = seg_n s"
  by (simp add: tree_inv_def)

lemma array_after_length: "length (array_after us xs) = length xs"
  by (induction us xs rule: array_after.induct) simp_all

lemma updates_inv:
  assumes "tree_inv s xs" "\<forall>(pos, new_val) \<in> set us. 0 \<le>s pos \<and> pos <s seg_n s"
  shows "\<exists>s'. updates us s = Some (Inr s') \<and> tree_inv s' (array_after us xs) \<and> seg_n s' = seg_n s"
  using assms
proof (induction us arbitrary: s xs)
  case Nil
  then show ?case by simp
next
  case (Cons u us)
  obtain pos x where u: "u = (pos, x)" by (cases u)
  have v: "0 \<le>s pos" "pos <s seg_n s" using Cons.prems(2) u by simp_all
  from update_inv [OF Cons.prems(1) valid_pos [OF Cons.prems(1) v], of x]
  obtain s1 where s1: "update pos x s = Some (Inr s1)" and i1: "tree_inv s1 (xs[unat pos := x])"
    by blast
  have n1: "seg_n s1 = seg_n s" using tree_inv_n [OF Cons.prems(1) i1] by simp
  have "\<forall>(pos, new_val) \<in> set us. 0 \<le>s pos \<and> pos <s seg_n s1"
    using Cons.prems(2) n1 by simp
  from Cons.IH [OF i1 this] obtain s' where "updates us s1 = Some (Inr s')"
    "tree_inv s' (array_after us (xs[unat pos := x]))" "seg_n s' = seg_n s1"
    by blast
  then show ?case using s1 n1 u by (simp add: rbind_simps)
qed

lemma fold_range_all: "fold_range xs 0 (length xs - 1) = foldl merge IDENTITY xs"
  by (cases xs) (simp_all add: fold_range_def)

subsection \<open>The segment tree's properties\<close>

text \<open>
  C1. For every array of length \<open>N \<ge> 1\<close> used to construct the segment tree, and after any
  sequence of valid point updates, \<open>query(l, r)\<close> with \<open>0 \<le> l \<le> r \<le> N - 1\<close> returns the
  left-to-right fold of \<open>merge\<close> over the elements \<open>l..r\<close> of the current conceptual array;
  in particular, right after construction \<open>query(0, N - 1)\<close> is the fold of \<open>merge\<close> over
  the whole initial array. (The array's size is an \<^verbatim>\<open>int\<close>, as \<^verbatim>\<open>n = a.size()\<close> takes it
  to be, and the tree's \<open>n\<close> is \<open>N\<close>.)
\<close>

theorem query_returns_fold:
  assumes "SegTree_ctor a = Some (Inr s0)" and "length a < 2 ^ 31"
    and "\<forall>(pos, new_val) \<in> set us. 0 \<le>s pos \<and> pos <s seg_n s0"
  shows "\<exists>s. updates us s0 = Some (Inr s) \<and> sint (seg_n s) = int (length a) \<and> 1 \<le> length a \<and>
           (\<forall>l r. 0 \<le>s l \<and> l \<le>s r \<and> r <s seg_n s \<longrightarrow>
              query l r s =
                Some (Inr (fold_range (array_after us (map scast a)) (unat l) (unat r), s))) \<and>
           query 0 (seg_n s0 - 1) s0 = Some (Inr (foldl merge IDENTITY (map scast a), s0))"
proof -
  let ?xs = "map scast a :: T list"
  have i0: "tree_inv s0 ?xs" using assms(1,2) by (rule ctor_tree_inv)
  from updates_inv [OF i0 assms(3)] obtain s where u: "updates us s0 = Some (Inr s)"
    and i: "tree_inv s (array_after us ?xs)" and n: "seg_n s = seg_n s0"
    by blast
  note rt = tree_inv_root [OF i0]
  have N: "1 \<le> length a" "4 * length a < 2 ^ 31"
    using ctor_success_size [OF assms(1,2)] by simp_all
  have "unat (seg_n s0) < 2 ^ 31" using rt(4) N by simp
  then have "sint (seg_n s0) = uint (seg_n s0)" by (rule sint_unat)
  also have "\<dots> = int (unat (seg_n s0))" by simp
  finally have sn: "sint (seg_n s) = int (length a)" using rt(4) n by simp
  have q: "query l r s = Some (Inr (fold_range (array_after us ?xs) (unat l) (unat r), s))"
    if "0 \<le>s l \<and> l \<le>s r \<and> r <s seg_n s" for l r
    using that query_inv [OF i valid_range [OF i]] by blast
  have "unat (0::cint) \<le> unat (seg_n s0 - 1)" "unat (seg_n s0 - 1) < length ?xs"
    using rt(2) N by simp_all
  from query_inv [OF i0 this]
  have "query 0 (seg_n s0 - 1) s0 = Some (Inr (fold_range ?xs 0 (length ?xs - 1), s0))"
    using rt(2) by simp
  then have q0: "query 0 (seg_n s0 - 1) s0 = Some (Inr (foldl merge IDENTITY ?xs, s0))"
    by (simp only: fold_range_all)
  show ?thesis using u sn N(1) q q0 by blast
qed

theorem query_returns_fold_witness:
  "SegTree_ctor [1, 2, 3, 4, 5] =
     Some (Inr \<lparr>seg_n = 5, seg_t = [0, 15, 6, 9, 3, 3, 4, 5, 1, 2, 0, 0, 0, 0, 0, 0, 0, 0, 0, 0]\<rparr>) \<and>
   (\<exists>s. updates [(2, 10)]
          \<lparr>seg_n = 5, seg_t = [0, 15, 6, 9, 3, 3, 4, 5, 1, 2, 0, 0, 0, 0, 0, 0, 0, 0, 0, 0]\<rparr> =
          Some (Inr s) \<and>
        query 1 3 s = Some (Inr (16, s))) \<and>
   query 0 4 \<lparr>seg_n = 5, seg_t = [0, 15, 6, 9, 3, 3, 4, 5, 1, 2, 0, 0, 0, 0, 0, 0, 0, 0, 0, 0]\<rparr> =
     Some (Inr (15,
       \<lparr>seg_n = 5, seg_t = [0, 15, 6, 9, 3, 3, 4, 5, 1, 2, 0, 0, 0, 0, 0, 0, 0, 0, 0, 0]\<rparr>))"
proof -
  let ?a = "[1, 2, 3, 4, 5] :: 32 word list"
  let ?s0 = "\<lparr>seg_n = 5, seg_t = [0, 15, 6, 9, 3, 3, 4, 5, 1, 2, 0, 0, 0, 0, 0, 0, 0, 0, 0, 0]\<rparr>"
  let ?us = "[(2, 10)] :: (cint \<times> T) list"
  have h1: "SegTree_ctor ?a = Some (Inr ?s0)" by code_simp
  have h2: "length ?a < 2 ^ 31" by simp
  have h3: "\<forall>(pos, new_val) \<in> set ?us. 0 \<le>s pos \<and> pos <s seg_n ?s0"
    by (simp add: word_sle_eq word_sless_alt)
  from query_returns_fold [OF h1 h2 h3] obtain s where u: "updates ?us ?s0 = Some (Inr s)"
    and q: "\<forall>l r. 0 \<le>s l \<and> l \<le>s r \<and> r <s seg_n s \<longrightarrow>
              query l r s =
                Some (Inr (fold_range (array_after ?us (map scast ?a)) (unat l) (unat r), s))"
    and n: "sint (seg_n s) = int (length ?a)"
    and q0: "query 0 (seg_n ?s0 - 1) ?s0 = Some (Inr (foldl merge IDENTITY (map scast ?a), ?s0))"
    by blast
  have "(0::cint) \<le>s 1 \<and> (1::cint) \<le>s 3 \<and> (3::cint) <s seg_n s"
    using n by (simp add: word_sless_alt word_sle_eq)
  with q have "query 1 3 s = Some (Inr (fold_range (array_after ?us (map scast ?a)) (unat (1::cint)) (unat (3::cint)), s))"
    by blast
  then have "query 1 3 s = Some (Inr (16, s))"
    by (simp add: fold_range_def merge_def IDENTITY_def)
  moreover have "query 0 4 ?s0 = Some (Inr (15, ?s0))"
    using q0 by (simp add: merge_def IDENTITY_def)
  ultimately show ?thesis using h1 u by blast
qed

lemma tree_inv_nodes:
  "tree_inv s xs \<Longrightarrow>
     \<forall>(v, tL, tR) \<in> set (nodes 1 0 (length xs - 1)).
        v < length (seg_t s) \<and> seg_t s ! v = fold_range xs tL tR"
  unfolding tree_inv_def by (elim conjE)

text \<open>
  C2. For every tree node covering a range \<open>[tl, tr]\<close>, the aggregate stored in the node is
  \<open>merge\<close> folded left to right over the leaf values in \<open>[tl, tr]\<close>; this holds for every
  node after construction and is re-established after every \<open>update(pos, newValue)\<close> with
  \<open>0 \<le> pos \<le> N - 1\<close>. (\<open>tree_inv s xs\<close> says it of the state \<open>s\<close> and the leaf values \<open>xs\<close>.)
\<close>

theorem every_node_holds_its_fold:
  "(SegTree_ctor a = Some (Inr s0) \<and> length a < 2 ^ 31 \<longrightarrow>
      tree_inv s0 (map scast a) \<and>
      (\<forall>(v, tL, tR) \<in> set (nodes 1 0 (length a - 1)).
         v < length (seg_t s0) \<and> seg_t s0 ! v = fold_range (map scast a) tL tR)) \<and>
   (tree_inv s xs \<and> 0 \<le>s pos \<and> pos <s seg_n s \<longrightarrow>
      (\<exists>s'. update pos new_val s = Some (Inr s') \<and>
         tree_inv s' (xs[unat pos := new_val]) \<and>
         (\<forall>(v, tL, tR) \<in> set (nodes 1 0 (length xs - 1)).
            v < length (seg_t s') \<and> seg_t s' ! v = fold_range (xs[unat pos := new_val]) tL tR)))"
proof (intro conjI impI)
  assume c: "SegTree_ctor a = Some (Inr s0) \<and> length a < 2 ^ 31"
  then show i: "tree_inv s0 (map scast a)" using ctor_tree_inv by blast
  show "\<forall>(v, tL, tR) \<in> set (nodes 1 0 (length a - 1)).
         v < length (seg_t s0) \<and> seg_t s0 ! v = fold_range (map scast a) tL tR"
    using tree_inv_nodes [OF i] by simp
next
  assume h: "tree_inv s xs \<and> 0 \<le>s pos \<and> pos <s seg_n s"
  then have p: "unat pos < length xs" using valid_pos by blast
  from h update_inv [OF _ p, of s new_val]
  obtain s' where u: "update pos new_val s = Some (Inr s')"
    and i: "tree_inv s' (xs[unat pos := new_val])"
    by blast
  show "\<exists>s'. update pos new_val s = Some (Inr s') \<and>
         tree_inv s' (xs[unat pos := new_val]) \<and>
         (\<forall>(v, tL, tR) \<in> set (nodes 1 0 (length xs - 1)).
            v < length (seg_t s') \<and> seg_t s' ! v = fold_range (xs[unat pos := new_val]) tL tR)"
    using u i tree_inv_nodes [OF i] by auto
qed

theorem every_node_holds_its_fold_witness:
  "SegTree_ctor [1, 2, 3] = Some (Inr \<lparr>seg_n = 3, seg_t = [0, 6, 3, 3, 1, 2, 0, 0, 0, 0, 0, 0]\<rparr>) \<and>
   nodes 1 0 2 = [(1, 0, 2), (2, 0, 1), (4, 0, 0), (5, 1, 1), (3, 2, 2)] \<and>
   tree_inv \<lparr>seg_n = 3, seg_t = [0, 6, 3, 3, 1, 2, 0, 0, 0, 0, 0, 0]\<rparr> [1, 2, 3] \<and>
   (\<exists>s'. update 1 7 \<lparr>seg_n = 3, seg_t = [0, 6, 3, 3, 1, 2, 0, 0, 0, 0, 0, 0]\<rparr> = Some (Inr s') \<and>
      tree_inv s' [1, 7, 3])"
proof -
  let ?a = "[1, 2, 3] :: 32 word list"
  let ?s0 = "\<lparr>seg_n = 3, seg_t = [0, 6, 3, 3, 1, 2, 0, 0, 0, 0, 0, 0]\<rparr>"
  have h1: "SegTree_ctor ?a = Some (Inr ?s0)" by code_simp
  have h2: "length ?a < 2 ^ 31" by simp
  have h3: "(0::cint) \<le>s 1 \<and> 1 <s seg_n ?s0" by (simp add: word_sle_eq word_sless_alt)
  have n: "nodes 1 0 2 = [(1, 0, 2), (2, 0, 1), (4, 0, 0), (5, 1, 1), (3, 2, 2)]" by code_simp
  have i: "tree_inv ?s0 (map scast ?a)"
    using every_node_holds_its_fold [of ?a ?s0] h1 h2 by blast
  then have i': "tree_inv ?s0 [1, 2, 3]" by simp
  from every_node_holds_its_fold [of _ _ ?s0 "[1, 2, 3]" 1 7] i' h3
  obtain s' where "update 1 7 ?s0 = Some (Inr s')" "tree_inv s' ([1, 2, 3][unat (1::cint) := 7])"
    by blast
  then have "\<exists>s'. update 1 7 ?s0 = Some (Inr s') \<and> tree_inv s' [1, 7, 3]" by auto
  then show ?thesis using h1 n i' by blast
qed

text \<open>
  C3. For every tree of size \<open>N \<ge> 1\<close>, every position \<open>0 \<le> pos \<le> N - 1\<close> and every value
  \<open>v\<close>: \<open>update(pos, v)\<close> and then \<open>query(pos, pos)\<close> returns \<open>v\<close>.
\<close>

theorem update_then_query:
  assumes "tree_inv s xs" and "0 \<le>s pos" and "pos <s seg_n s"
  shows "\<exists>s1. update pos v s = Some (Inr s1) \<and> query pos pos s1 = Some (Inr (v, s1))"
proof -
  have p: "unat pos < length xs" using assms by (rule valid_pos)
  from update_inv [OF assms(1) p, of v]
  obtain s1 where u: "update pos v s = Some (Inr s1)" and i: "tree_inv s1 (xs[unat pos := v])"
    by blast
  have lt: "unat pos < length (xs[unat pos := v])" using p by simp
  have "unat pos \<le> unat pos" by simp
  from query_inv [OF i this lt]
  have "query pos pos s1 = Some (Inr (fold_range (xs[unat pos := v]) (unat pos) (unat pos), s1))" .
  then have "query pos pos s1 = Some (Inr (v, s1))"
    using p by (simp add: fold_range_single)
  then show ?thesis using u by blast
qed

theorem update_then_query_witness:
  "tree_inv \<lparr>seg_n = 1, seg_t = [0, 7, 0, 0]\<rparr> [7] \<and> (0::cint) \<le>s 0 \<and>
   0 <s seg_n \<lparr>seg_n = 1, seg_t = [0, 7, 0, 0]\<rparr> \<and>
   (\<exists>s1. update 0 3 \<lparr>seg_n = 1, seg_t = [0, 7, 0, 0]\<rparr> = Some (Inr s1) \<and>
      query 0 0 s1 = Some (Inr (3, s1)))"
proof -
  let ?s = "\<lparr>seg_n = 1, seg_t = [0, 7, 0, 0]\<rparr>"
  have h1: "tree_inv ?s [7]"
    by (simp add: tree_inv_def nodes.simps fold_range_def merge_def IDENTITY_def)
  have h2: "(0::cint) \<le>s 0" by simp
  have h3: "0 <s seg_n ?s" by (simp add: word_sless_alt)
  from update_then_query [OF h1 h2 h3, of 3] show ?thesis using h1 h2 h3 by blast
qed

text \<open>
  C4. \<open>update(pos, v)\<close> changes only position \<open>pos\<close> of the conceptual array: for valid
  \<open>pos1 \<noteq> pos2\<close>, after \<open>update(pos1, v1)\<close> and then \<open>update(pos2, v2)\<close>, \<open>query(pos1, pos1)\<close>
  returns \<open>v1\<close> and \<open>query(pos2, pos2)\<close> returns \<open>v2\<close>, and every other position still
  returns the value it returned before.
\<close>

theorem update_changes_only_pos:
  assumes "tree_inv s xs" and "0 \<le>s pos1" and "pos1 <s seg_n s"
    and "0 \<le>s pos2" and "pos2 <s seg_n s" and "pos1 \<noteq> pos2"
  shows "\<exists>s1 s2. update pos1 v1 s = Some (Inr s1) \<and> update pos2 v2 s1 = Some (Inr s2) \<and>
           query pos1 pos1 s2 = Some (Inr (v1, s2)) \<and>
           query pos2 pos2 s2 = Some (Inr (v2, s2)) \<and>
           (\<forall>p. 0 \<le>s p \<and> p <s seg_n s \<and> p \<noteq> pos1 \<longrightarrow>
              (\<exists>y. query p p s = Some (Inr (y, s)) \<and> query p p s1 = Some (Inr (y, s1)) \<and>
                   (p \<noteq> pos2 \<longrightarrow> query p p s2 = Some (Inr (y, s2)))))"
proof -
  let ?xs1 = "xs[unat pos1 := v1]"
  let ?xs2 = "?xs1[unat pos2 := v2]"
  have p1: "unat pos1 < length xs" using assms(1,2,3) by (rule valid_pos)
  have p2: "unat pos2 < length xs" using assms(1,4,5) by (rule valid_pos)
  have ne: "unat pos1 \<noteq> unat pos2" using assms(6) by (simp add: word_unat_eq_iff)
  from update_inv [OF assms(1) p1, of v1]
  obtain s1 where u1: "update pos1 v1 s = Some (Inr s1)" and i1: "tree_inv s1 ?xs1"
    by blast
  have "unat pos2 < length ?xs1" using p2 by simp
  from update_inv [OF i1 this, of v2]
  obtain s2 where u2: "update pos2 v2 s1 = Some (Inr s2)" and i2: "tree_inv s2 ?xs2"
    by blast
  have pt: "query p p t = Some (Inr (ys ! unat p, t))"
    if "tree_inv t ys" "unat p < length ys" for p t ys
  proof -
    have "unat p \<le> unat p" by simp
    from query_inv [OF that(1) this that(2)] show ?thesis
      using that(2) by (simp add: fold_range_single)
  qed
  have q1: "query pos1 pos1 s2 = Some (Inr (v1, s2))"
    using pt [OF i2, of pos1] p1 ne by simp
  have q2: "query pos2 pos2 s2 = Some (Inr (v2, s2))"
    using pt [OF i2, of pos2] p2 by simp
  have fr: "\<exists>y. query p p s = Some (Inr (y, s)) \<and> query p p s1 = Some (Inr (y, s1)) \<and>
                   (p \<noteq> pos2 \<longrightarrow> query p p s2 = Some (Inr (y, s2)))"
    if v: "0 \<le>s p \<and> p <s seg_n s \<and> p \<noteq> pos1" for p
  proof -
    have p: "unat p < length xs" using assms(1) v valid_pos by blast
    have n1: "unat p \<noteq> unat pos1" using v by (simp add: word_unat_eq_iff)
    have a: "query p p s = Some (Inr (xs ! unat p, s))" using pt [OF assms(1) p] .
    have b: "query p p s1 = Some (Inr (xs ! unat p, s1))"
      using pt [OF i1, of p] p n1 by simp
    have c: "query p p s2 = Some (Inr (xs ! unat p, s2))" if "p \<noteq> pos2"
    proof -
      have "unat p \<noteq> unat pos2" using that by (simp add: word_unat_eq_iff)
      then show ?thesis using pt [OF i2, of p] p n1 by simp
    qed
    show ?thesis using a b c by blast
  qed
  show ?thesis using u1 u2 q1 q2 fr by blast
qed

theorem update_changes_only_pos_witness:
  "tree_inv \<lparr>seg_n = 3, seg_t = [0, 6, 3, 3, 1, 2, 0, 0, 0, 0, 0, 0]\<rparr> [1, 2, 3] \<and>
   (0::cint) \<le>s 0 \<and> 0 <s seg_n \<lparr>seg_n = 3, seg_t = [0, 6, 3, 3, 1, 2, 0, 0, 0, 0, 0, 0]\<rparr> \<and>
   (0::cint) \<le>s 2 \<and> 2 <s seg_n \<lparr>seg_n = 3, seg_t = [0, 6, 3, 3, 1, 2, 0, 0, 0, 0, 0, 0]\<rparr> \<and>
   (0::cint) \<noteq> 2 \<and>
   (\<exists>s1 s2. update 0 8 \<lparr>seg_n = 3, seg_t = [0, 6, 3, 3, 1, 2, 0, 0, 0, 0, 0, 0]\<rparr> = Some (Inr s1) \<and>
      update 2 9 s1 = Some (Inr s2) \<and>
      query 0 0 s2 = Some (Inr (8, s2)) \<and> query 2 2 s2 = Some (Inr (9, s2)) \<and>
      query 1 1 s2 = Some (Inr (2, s2)))"
proof -
  let ?s = "\<lparr>seg_n = 3, seg_t = [0, 6, 3, 3, 1, 2, 0, 0, 0, 0, 0, 0]\<rparr>"
  have h1: "tree_inv ?s [1, 2, 3]"
    by (simp add: tree_inv_def nodes.simps fold_range_def merge_def IDENTITY_def)
  have h2: "(0::cint) \<le>s 0" "0 <s seg_n ?s" "(0::cint) \<le>s 2" "2 <s seg_n ?s" "(0::cint) \<noteq> 2"
    by (simp_all add: word_sle_eq word_sless_alt)
  from update_changes_only_pos [OF h1 h2, of 8 9]
  obtain s1 s2 where u: "update 0 8 ?s = Some (Inr s1)" "update 2 9 s1 = Some (Inr s2)"
    "query 0 0 s2 = Some (Inr (8, s2))" "query 2 2 s2 = Some (Inr (9, s2))"
    and fr: "\<forall>p. 0 \<le>s p \<and> p <s seg_n ?s \<and> p \<noteq> 0 \<longrightarrow>
              (\<exists>y. query p p ?s = Some (Inr (y, ?s)) \<and> query p p s1 = Some (Inr (y, s1)) \<and>
                   (p \<noteq> 2 \<longrightarrow> query p p s2 = Some (Inr (y, s2))))"
    by blast
  have "(0::cint) \<le>s 1 \<and> 1 <s seg_n ?s \<and> (1::cint) \<noteq> 0"
    by (simp add: word_sle_eq word_sless_alt)
  with fr obtain y where y: "query 1 1 ?s = Some (Inr (y, ?s))"
    "(1::cint) \<noteq> 2 \<longrightarrow> query 1 1 s2 = Some (Inr (y, s2))"
    by blast
  have "query 1 1 ?s = Some (Inr (2, ?s))" by code_simp
  then have "y = 2" using y(1) by simp
  then have "query 1 1 s2 = Some (Inr (2, s2))" using y(2) by simp
  then show ?thesis using h1 h2 u by blast
qed

text \<open>
  C5. For every tree and all \<^verbatim>\<open>int\<close>s \<open>l\<close>, \<open>r\<close> with \<open>l > r\<close>, \<open>query(l, r)\<close> returns the
  identity element: an empty range is a valid query, not an error.
\<close>

theorem query_empty_range:
  assumes "r <s l"
  shows "query l r s = Some (Inr (IDENTITY, s))"
  unfolding query_def using assms by (subst query_recursive.simps) simp

theorem query_empty_range_witness:
  "(1::cint) <s 3 \<and>
   query 3 1 \<lparr>seg_n = 1, seg_t = [0, 7, 0, 0]\<rparr> =
     Some (Inr (IDENTITY, \<lparr>seg_n = 1, seg_t = [0, 7, 0, 0]\<rparr>))"
proof -
  have h: "(1::cint) <s 3" by (simp add: word_sless_alt)
  from query_empty_range [OF h] show ?thesis using h by blast
qed

text \<open>
  C9. \<open>query\<close> is read-only and deterministic: whatever the tree state and the arguments,
  a call of \<open>query(l, r)\<close> that returns leaves \<open>n\<close> and every slot of \<open>t\<close> as they were, and
  a second call with the same arguments returns the same result.
\<close>

theorem query_read_only:
  assumes "query l r s = Some (Inr (x, s'))"
  shows "seg_n s' = seg_n s \<and> seg_t s' = seg_t s \<and> query l r s' = Some (Inr (x, s'))"
proof -
  from assms have "query_recursive 1 0 (seg_n s - 1) l r s = Some (Inr (x, s'))"
    by (simp add: query_def)
  from query_recursive_read_only [OF this] have "s' = s" by simp
  then show ?thesis using assms by simp
qed

theorem query_read_only_witness:
  "query 1 3 \<lparr>seg_n = 5, seg_t = [0, 15, 6, 9, 3, 3, 4, 5, 1, 2, 0, 0, 0, 0, 0, 0, 0, 0, 0, 0]\<rparr> =
     Some (Inr (9,
       \<lparr>seg_n = 5, seg_t = [0, 15, 6, 9, 3, 3, 4, 5, 1, 2, 0, 0, 0, 0, 0, 0, 0, 0, 0, 0]\<rparr>)) \<and>
   seg_t \<lparr>seg_n = 5, seg_t = [0, 15, 6, 9, 3, 3, 4, 5, 1, 2, 0, 0, 0, 0, 0, 0, 0, 0, 0, 0]\<rparr> =
     [0, 15, 6, 9, 3, 3, 4, 5, 1, 2, 0, 0, 0, 0, 0, 0, 0, 0, 0, 0]"
proof -
  let ?s = "\<lparr>seg_n = 5, seg_t = [0, 15, 6, 9, 3, 3, 4, 5, 1, 2, 0, 0, 0, 0, 0, 0, 0, 0, 0, 0]\<rparr>"
  have h: "query 1 3 ?s = Some (Inr (9, ?s))" by code_simp
  from query_read_only [OF h] show ?thesis using h by simp
qed

text \<open>
  C6, as the code has it. Constructing the tree from an empty array is neither rejected
  nor a tree with no nodes: the constructor sets \<open>n = 0\<close>, gives the buffer \<open>0\<close> slots and
  calls \<open>build(a, 1, 0, -1)\<close>; there \<open>tl \<noteq> tr\<close>, the split point is \<open>0 + (-1) / 2 = 0\<close>, and
  the leaf \<open>build(a, 2, 0, 0)\<close> indexes \<open>a[0]\<close> and \<open>t[2]\<close> outside the empty vectors.
  Construction needs \<open>N \<ge> 1\<close>.
\<close>

theorem ctor_empty_out_of_bounds:
  "SegTree_ctor [] = Some (Inl OutOfBounds) \<and>
   tm_of 0 (- 1) = 0 \<and>
   build [] 2 0 0 \<lparr>seg_n = 0, seg_t = []\<rparr> = Some (Inl OutOfBounds) \<and>
   build [] 1 0 (- 1) \<lparr>seg_n = 0, seg_t = []\<rparr> = Some (Inl OutOfBounds)"
proof -
  let ?s0 = "\<lparr>seg_n = 0, seg_t = []\<rparr>"
  have tm: "tm_of 0 (- 1) = 0"
    by (simp add: tm_of_def int_div_def signed_divide_int_def)
  have l: "build [] 2 0 0 ?s0 = Some (Inl OutOfBounds)"
    by (subst build.simps) (simp add: vec_get_def in_range_def rbind_simps)
  then have "build [] 1 0 (- 1) ?s0 = Some (Inl OutOfBounds)"
    by (subst build.simps) (simp add: tm rbind_simps)
  then show ?thesis using tm l ctor_empty by simp
qed

text \<open>Constructing from the empty array does not yield a tree object at all.\<close>

theorem ctor_empty_counterexample:
  "\<not> (\<exists>s. SegTree_ctor [] = Some (Inr s))"
  by (simp add: ctor_empty)









lemma nodes_fit:
  assumes "fits v (tR - tL + 1) L" "1 \<le> v"
  shows "\<forall>(u, l, r) \<in> set (nodes v tL tR). 1 \<le> u \<and> u < L"
  using assms
proof (induction v tL tR rule: nodes.induct)
  case (1 v tL tR)
  let ?tm = "tL + (tR - tL) div 2"
  let ?P = "\<lambda>(u, l, r). 1 \<le> u \<and> u < L"
  have here: "v < L" using "1.prems"(1) by (rule fits_bound)
  show ?case
  proof (cases "tL < tR")
    case True
    note fc = fits_children [OF "1.prems"(1) True]
    have a: "\<forall>x \<in> set (nodes (2 * v) tL ?tm). ?P x"
      using "1.IH"(1) [OF True fc(1)] "1.prems"(2) by simp
    have "fits (2 * v + 1) (tR - (?tm + 1) + 1) L" using fc(2) by simp
    then have b: "\<forall>x \<in> set (nodes (2 * v + 1) (?tm + 1) tR). ?P x"
      using "1.IH"(2) [OF True] by simp
    have "nodes v tL tR = (v, tL, tR) # (nodes (2 * v) tL ?tm @ nodes (2 * v + 1) (?tm + 1) tR)"
      by (subst nodes.simps) (simp add: True)
    then have "(\<forall>x \<in> set (nodes v tL tR). ?P x) \<longleftrightarrow>
        ?P (v, tL, tR) \<and> (\<forall>x \<in> set (nodes (2 * v) tL ?tm). ?P x) \<and>
        (\<forall>x \<in> set (nodes (2 * v + 1) (?tm + 1) tR). ?P x)"
      by (simp only: set_simps set_append ball_simps ball_Un)
    then show ?thesis using a b here "1.prems"(2) by simp
  next
    case False
    have "nodes v tL tR = [(v, tL, tR)]"
      by (subst nodes.simps) (simp add: False)
    then show ?thesis using here "1.prems"(2) by simp
  qed
qed

text \<open>
  C8, as the code has it. For every \<open>N \<ge> 1\<close> the slot of every node of the tree over
  \<open>[0, N - 1]\<close> is below \<open>4 * N\<close>, so \<open>4 * N\<close> slots suffice. The code computes \<open>4 * n\<close> as
  an \<^verbatim>\<open>int\<close>: for \<open>1 \<le> N\<close> and \<open>4 * N \<le> INT_MAX\<close> the constructor returns a tree whose
  buffer has \<open>4 * N\<close> slots, and construction, every update with \<open>0 \<le> pos \<le> N - 1\<close> and
  every query with \<open>0 \<le> l \<le> r \<le> N - 1\<close> return normally, that is without an access
  outside the vectors (which is \<open>OutOfBounds\<close> in the model).
\<close>

theorem four_n_slots_suffice:
  "(1 \<le> N \<longrightarrow> (\<forall>(v, tL, tR) \<in> set (nodes 1 0 (N - 1)). 1 \<le> v \<and> v < 4 * N)) \<and>
   (1 \<le> length a \<and> 4 * length a < 2 ^ 31 \<longrightarrow>
      (\<exists>s0. SegTree_ctor a = Some (Inr s0) \<and> length (seg_t s0) = 4 * length a \<and>
         (\<forall>us. (\<forall>(pos, new_val) \<in> set us. 0 \<le>s pos \<and> pos <s seg_n s0) \<longrightarrow>
            (\<exists>s. updates us s0 = Some (Inr s) \<and> seg_n s = seg_n s0 \<and>
               length (seg_t s) = 4 * length a \<and>
               (\<forall>l r. 0 \<le>s l \<and> l \<le>s r \<and> r <s seg_n s \<longrightarrow>
                  (\<exists>y. query l r s = Some (Inr (y, s))))))))"
proof (intro conjI impI)
  assume N: "1 \<le> N"
  then have "fits 1 (N - 1 - 0 + 1) (4 * N)" using fits_root [OF N] by simp
  from nodes_fit [OF this] show "\<forall>(v, tL, tR) \<in> set (nodes 1 0 (N - 1)). 1 \<le> v \<and> v < 4 * N"
    by simp
next
  assume h: "1 \<le> length a \<and> 4 * length a < 2 ^ 31"
  then obtain s0 where c: "SegTree_ctor a = Some (Inr s0)" and i0: "tree_inv s0 (map scast a)"
    using ctor_correct by blast
  have len0: "length (seg_t s0) = 4 * length a" using i0 by (simp add: tree_inv_def)
  have "\<exists>s. updates us s0 = Some (Inr s) \<and> seg_n s = seg_n s0 \<and>
               length (seg_t s) = 4 * length a \<and>
               (\<forall>l r. 0 \<le>s l \<and> l \<le>s r \<and> r <s seg_n s \<longrightarrow>
                  (\<exists>y. query l r s = Some (Inr (y, s))))"
    if v: "\<forall>(pos, new_val) \<in> set us. 0 \<le>s pos \<and> pos <s seg_n s0" for us
  proof -
    from updates_inv [OF i0 v] obtain s where u: "updates us s0 = Some (Inr s)"
      and i: "tree_inv s (array_after us (map scast a))" and sn: "seg_n s = seg_n s0"
      by blast
    have len: "length (seg_t s) = 4 * length a"
      using i by (simp add: tree_inv_def array_after_length)
    have "\<exists>y. query l r s = Some (Inr (y, s))" if "0 \<le>s l \<and> l \<le>s r \<and> r <s seg_n s" for l r
      using that query_inv [OF i valid_range [OF i]] by blast
    then show ?thesis using u len sn by blast
  qed
  then show "\<exists>s0. SegTree_ctor a = Some (Inr s0) \<and> length (seg_t s0) = 4 * length a \<and>
         (\<forall>us. (\<forall>(pos, new_val) \<in> set us. 0 \<le>s pos \<and> pos <s seg_n s0) \<longrightarrow>
            (\<exists>s. updates us s0 = Some (Inr s) \<and> seg_n s = seg_n s0 \<and>
               length (seg_t s) = 4 * length a \<and>
               (\<forall>l r. 0 \<le>s l \<and> l \<le>s r \<and> r <s seg_n s \<longrightarrow>
                  (\<exists>y. query l r s = Some (Inr (y, s))))))"
    using c len0 by blast
qed

theorem four_n_slots_suffice_witness:
  "(1::nat) \<le> 3 \<and> nodes 1 0 2 = [(1, 0, 2), (2, 0, 1), (4, 0, 0), (5, 1, 1), (3, 2, 2)] \<and>
   1 \<le> length [1, 2, 3 :: 32 word] \<and> 4 * length [1, 2, 3 :: 32 word] < 2 ^ 31 \<and>
   (\<exists>s0. SegTree_ctor [1, 2, 3] = Some (Inr s0) \<and> length (seg_t s0) = 12 \<and>
      (\<exists>s. updates [(0, 5), (2, 4)] s0 = Some (Inr s) \<and> length (seg_t s) = 12 \<and>
         (\<exists>y. query 0 2 s = Some (Inr (y, s)))))"
proof -
  let ?a = "[1, 2, 3] :: 32 word list"
  let ?us = "[(0, 5), (2, 4)] :: (cint \<times> T) list"
  have n: "nodes 1 0 2 = [(1, 0, 2), (2, 0, 1), (4, 0, 0), (5, 1, 1), (3, 2, 2)]" by code_simp
  have h: "1 \<le> length ?a \<and> 4 * length ?a < 2 ^ 31" by simp
  with four_n_slots_suffice [of 3 ?a]
  obtain s0 where c: "SegTree_ctor ?a = Some (Inr s0)" "length (seg_t s0) = 4 * length ?a"
    and r: "\<forall>us. (\<forall>(pos, new_val) \<in> set us. 0 \<le>s pos \<and> pos <s seg_n s0) \<longrightarrow>
            (\<exists>s. updates us s0 = Some (Inr s) \<and> seg_n s = seg_n s0 \<and>
               length (seg_t s) = 4 * length ?a \<and>
               (\<forall>l r. 0 \<le>s l \<and> l \<le>s r \<and> r <s seg_n s \<longrightarrow>
                  (\<exists>y. query l r s = Some (Inr (y, s)))))"
    by blast
  have "SegTree_ctor ?a = Some (Inr \<lparr>seg_n = 3, seg_t = [0, 6, 3, 3, 1, 2, 0, 0, 0, 0, 0, 0]\<rparr>)"
    by code_simp
  then have s0: "seg_n s0 = 3" using c(1) by auto
  have "\<forall>(pos, new_val) \<in> set ?us. 0 \<le>s pos \<and> pos <s seg_n s0"
    using s0 by (simp add: word_sle_eq word_sless_alt)
  with r obtain s where u: "updates ?us s0 = Some (Inr s)" "length (seg_t s) = 4 * length ?a"
    and sn0: "seg_n s = seg_n s0"
    and q: "\<forall>l r. 0 \<le>s l \<and> l \<le>s r \<and> r <s seg_n s \<longrightarrow>
                  (\<exists>y. query l r s = Some (Inr (y, s)))"
    by blast
  have sn: "seg_n s = 3" using sn0 s0 by simp
  have "(0::cint) \<le>s 0 \<and> (0::cint) \<le>s 2 \<and> 2 <s seg_n s"
    using sn by (simp add: word_sle_eq word_sless_alt)
  with q obtain y where "query 0 2 s = Some (Inr (y, s))" by blast
  then show ?thesis using n h c u by auto
qed

text \<open>
  For \<open>N = 2^29\<close> the product \<open>4 * n\<close> is no \<^verbatim>\<open>int\<close> any more: it wraps to \<open>-2^31\<close>, and
  the constructor ends in \<^verbatim>\<open>resize\<close>.
\<close>

theorem four_n_slots_counterexample:
  "1 \<le> length (replicate 536870912 (0 :: 32 word)) \<and>
   SegTree_ctor (replicate 536870912 0) = Some (Inl LengthError)"
  by (simp add: SegTree_ctor_def word_sless_alt)

section \<open>Proofs: disjoint set union\<close>

subsection \<open>Roots\<close>

lemma rep_is_root: "rep ps v r \<Longrightarrow> in_range ps r \<and> ps ! unat r = r"
  by (induction rule: rep.induct) simp_all

lemma rep_in_range: "rep ps v r \<Longrightarrow> in_range ps v"
  by (cases rule: rep.cases) simp_all

lemma rep_root_self: "rep ps v r \<Longrightarrow> ps ! unat v = v \<Longrightarrow> r = v"
  by (erule rep.cases) auto

lemma rep_det: "rep ps v r \<Longrightarrow> rep ps v r' \<Longrightarrow> r = r'"
proof (induction arbitrary: r' rule: rep.induct)
  case (root v)
  then show ?case using rep_root_self by blast
next
  case (step v r)
  from step.prems step.hyps(2) have "rep ps (ps ! unat v) r'"
    by (cases rule: rep.cases) simp_all
  then show ?case using step.IH by blast
qed

text \<open>Path compression: pointing \<open>v\<close> at its own root changes no representative.\<close>

lemma rep_compress:
  assumes vr: "rep ps v r"
  shows "rep (ps[unat v := r]) x y \<longleftrightarrow> rep ps x y"
proof
  let ?ps' = "ps[unat v := r]"
  have ir: "in_range ?ps' z = in_range ps z" for z by (rule in_range_length) simp
  note rr = rep_is_root [OF vr]
  have rroot: "rep ?ps' r r"
  proof (rule rep.root)
    show "in_range ?ps' r" using rr ir by simp
    show "?ps' ! unat r = r" using rr by (cases "unat r = unat v") (simp_all add: in_range_def)
  qed
  {
    assume "rep ps x y"
    then show "rep ?ps' x y"
    proof (induction rule: rep.induct)
      case (root x)
      have "?ps' ! unat x = x"
      proof (cases "unat x = unat v")
        case True
        then have "x = v" by (simp add: word_unat_eq_iff)
        then have "r = v" using rep_root_self [OF vr] root by simp
        then show ?thesis using root \<open>x = v\<close> by (simp add: in_range_def)
      next
        case False
        then show ?thesis using root by simp
      qed
      then show ?case using root ir by (simp add: rep.root)
    next
      case (step x y)
      show ?case
      proof (cases "x = v")
        case True
        then have "y = r" using rep.step [OF step.hyps] vr rep_det by blast
        have "r \<noteq> v" using rr step.hyps(2) True by auto
        then have "?ps' ! unat v \<noteq> v" using step.hyps(1) True by (simp add: in_range_def)
        moreover have "?ps' ! unat v = r" using step.hyps(1) True by (simp add: in_range_def)
        ultimately have "rep ?ps' v r"
          using rroot step.hyps(1) ir True by (simp add: rep.step)
        then show ?thesis using True \<open>y = r\<close> by simp
      next
        case False
        then have "unat x \<noteq> unat v" by (simp add: word_unat_eq_iff)
        then have e: "?ps' ! unat x = ps ! unat x" by simp
        have "rep ?ps' (?ps' ! unat x) y" using step.IH e by simp
        moreover have "in_range ?ps' x" "?ps' ! unat x \<noteq> x" using step.hyps e ir by simp_all
        ultimately show ?thesis by (simp add: rep.step)
      qed
    qed
  }
  {
    assume "rep ?ps' x y"
    then show "rep ps x y"
    proof (induction rule: rep.induct)
      case (root x)
      show ?case
      proof (cases "x = v")
        case True
        then have "r = v" using root by (simp add: in_range_def)
        then show ?thesis using vr True by simp
      next
        case False
        then have "unat x \<noteq> unat v" by (simp add: word_unat_eq_iff)
        then show ?thesis using root ir by (simp add: rep.root)
      qed
    next
      case (step x y)
      show ?case
      proof (cases "x = v")
        case True
        then have e: "?ps' ! unat x = r" using step.hyps(1) by (simp add: in_range_def)
        then have "rep ps r y" using step.IH by simp
        then have "y = r" using rr rep_root_self by blast
        then show ?thesis using vr True by simp
      next
        case False
        then have "unat x \<noteq> unat v" by (simp add: word_unat_eq_iff)
        then have e: "?ps' ! unat x = ps ! unat x" by simp
        have "rep ps (ps ! unat x) y" using step.IH e by simp
        moreover have "in_range ps x" "ps ! unat x \<noteq> x" using step.hyps e ir by simp_all
        ultimately show ?thesis by (simp add: rep.step)
      qed
    qed
  }
qed

lemma find_set_correct:
  assumes "rep (parent s) v r"
  shows "\<exists>s'. find_set v s = Some (Inr (r, s')) \<and> sz s' = sz s \<and>
           length (parent s') = length (parent s) \<and>
           (\<forall>x y. rep (parent s') x y \<longleftrightarrow> rep (parent s) x y)"
  using assms
proof (induction rule: rep.induct)
  case (root v)
  then have "find_set v s = Some (Inr (v, s))"
    by (subst find_set.simps) (simp add: vec_get_def rbind_simps)
  then show ?case by simp
next
  case (step v r)
  let ?p = "parent s ! unat v"
  from step.IH obtain s1 where f: "find_set ?p s = Some (Inr (r, s1))" and z: "sz s1 = sz s"
    and len: "length (parent s1) = length (parent s)"
    and eq: "\<forall>x y. rep (parent s1) x y \<longleftrightarrow> rep (parent s) x y"
    by (elim exE conjE)
  let ?s' = "s1\<lparr>parent := (parent s1)[unat v := r]\<rparr>"
  have g: "vec_get (parent s) v = Inr ?p" using step.hyps(1) by (simp add: vec_get_def)
  have "in_range (parent s1) v" using step.hyps(1) len in_range_length by blast
  then have st: "vec_set (parent s1) v r = Inr ((parent s1)[unat v := r])"
    by (simp add: vec_set_def)
  have ne: "v \<noteq> ?p" using step.hyps(2) by simp
  have fs: "find_set v s = Some (Inr (r, ?s'))"
    by (subst find_set.simps) (simp only: g rbind_simps ne if_False f prod.case st)
  have "rep (parent s1) v r" using eq rep.step [OF step.hyps] by simp
  then have "rep (parent ?s') x y \<longleftrightarrow> rep (parent s) x y" for x y
    using rep_compress [of "parent s1" v r x y] eq by simp
  then show ?case using fs z len by simp
qed

text \<open>Linking the root \<open>b\<close> under the root \<open>a\<close> moves exactly the set of \<open>b\<close> to \<open>a\<close>.\<close>

lemma rep_link:
  assumes a: "rep ps a a" and b: "rep ps b b" and ne: "a \<noteq> b"
  shows "rep (ps[unat b := a]) x y \<longleftrightarrow> (rep ps x y \<and> y \<noteq> b) \<or> (rep ps x b \<and> y = a)"
proof
  let ?ps' = "ps[unat b := a]"
  have ir: "in_range ?ps' z = in_range ps z" for z by (rule in_range_length) simp
  note ra = rep_is_root [OF a] and rb = rep_is_root [OF b]
  have une: "unat a \<noteq> unat b" using ne by (simp add: word_unat_eq_iff)
  have at_b: "?ps' ! unat b = a" using rb by (simp add: in_range_def)
  have other: "?ps' ! unat z = ps ! unat z" if "z \<noteq> b" for z
    using that by (simp add: word_unat_eq_iff)
  have aroot: "rep ?ps' a a"
    using ra ir other [OF ne] by (simp add: rep.root)
  have keep: "rep ?ps' x y" if "rep ps x y" "y \<noteq> b" for x y
    using that
  proof (induction rule: rep.induct)
    case (root x)
    then show ?case using ir other [of x] by (simp add: rep.root)
  next
    case (step x y)
    have "x \<noteq> b" using step.hyps(2) rb by auto
    then have e: "?ps' ! unat x = ps ! unat x" by (rule other)
    have "rep ?ps' (?ps' ! unat x) y" using step.IH step.prems e by simp
    moreover have "in_range ?ps' x" "?ps' ! unat x \<noteq> x" using step.hyps e ir by simp_all
    ultimately show ?case by (simp add: rep.step)
  qed
  have move: "rep ?ps' x a" if "rep ps x r" "r = b" for x r
    using that
  proof (induction rule: rep.induct)
    case (root x)
    then have "in_range ?ps' b" "?ps' ! unat b \<noteq> b" "rep ?ps' (?ps' ! unat b) a"
      using ir at_b ne aroot by simp_all
    then have "rep ?ps' b a" by (rule rep.step)
    then show ?case using root by simp
  next
    case (step x r)
    have "x \<noteq> b" using step.hyps(2) rb by auto
    then have e: "?ps' ! unat x = ps ! unat x" by (rule other)
    have "rep ?ps' (?ps' ! unat x) a" using step.IH step.prems e by simp
    moreover have "in_range ?ps' x" "?ps' ! unat x \<noteq> x" using step.hyps e ir by simp_all
    ultimately show ?case by (simp add: rep.step)
  qed
  {
    assume "(rep ps x y \<and> y \<noteq> b) \<or> (rep ps x b \<and> y = a)"
    then show "rep ?ps' x y" using keep move by blast
  }
  {
    assume "rep ?ps' x y"
    then show "(rep ps x y \<and> y \<noteq> b) \<or> (rep ps x b \<and> y = a)"
    proof (induction rule: rep.induct)
      case (root x)
      have "x \<noteq> b" using root(2) at_b ne by auto
      then have "ps ! unat x = x" using root(2) other by simp
      then have "rep ps x x" using root(1) ir by (simp add: rep.root)
      then show ?case using \<open>x \<noteq> b\<close> by simp
    next
      case (step x y)
      show ?case
      proof (cases "x = b")
        case True
        then have "?ps' ! unat x = a" using at_b by simp
        then have "(rep ps a y \<and> y \<noteq> b) \<or> (rep ps a b \<and> y = a)" using step.IH by simp
        then have "y = a" using ra rep_root_self by blast
        then show ?thesis using b True by simp
      next
        case False
        then have e: "?ps' ! unat x = ps ! unat x" by (rule other)
        have p: "in_range ps x" "ps ! unat x \<noteq> x" using step.hyps e ir by simp_all
        from step.IH e have "(rep ps (ps ! unat x) y \<and> y \<noteq> b) \<or> (rep ps (ps ! unat x) b \<and> y = a)"
          by simp
        then show ?thesis using rep.step [OF p] by blast
      qed
    qed
  }
qed

lemma union_sets_correct:
  assumes "dsu_inv s" "in_range (parent s) a" "in_range (parent s) b"
  shows "\<exists>s'. union_sets a b s = Some (Inr s') \<and> dsu_inv s' \<and>
           length (parent s') = length (parent s) \<and>
           (\<exists>r. rep (parent s') a r \<and> rep (parent s') b r)"
proof -
  from assms have all0: "\<And>v. in_range (parent s) v \<Longrightarrow> \<exists>r. rep (parent s) v r"
    by (simp add: dsu_inv_def)
  from all0 [OF assms(2)] obtain ra where ra: "rep (parent s) a ra" by blast
  from all0 [OF assms(3)] obtain rb where rb: "rep (parent s) b rb" by blast
  from find_set_correct [OF ra] obtain s1 where f1: "find_set a s = Some (Inr (ra, s1))"
    and z1: "sz s1 = sz s" and l1: "length (parent s1) = length (parent s)"
    and e1: "\<forall>x y. rep (parent s1) x y \<longleftrightarrow> rep (parent s) x y"
    by (elim exE conjE)
  have "rep (parent s1) b rb" using rb e1 by simp
  from find_set_correct [OF this] obtain s2 where f2: "find_set b s1 = Some (Inr (rb, s2))"
    and z2: "sz s2 = sz s1" and l2: "length (parent s2) = length (parent s1)"
    and e2: "\<forall>x y. rep (parent s2) x y \<longleftrightarrow> rep (parent s1) x y"
    by (elim exE conjE)
  let ?ps = "parent s2"
  have e: "rep ?ps x y \<longleftrightarrow> rep (parent s) x y" for x y using e1 e2 by simp
  have lz: "length (sz s2) = length ?ps" using assms(1) z1 z2 l1 l2 by (simp add: dsu_inv_def)
  have lp: "length ?ps = length (parent s)" using l1 l2 by simp
  have inv2: "dsu_inv s2"
    using assms(1) e lz lp in_range_length [OF lp] by (simp add: dsu_inv_def)
  have a2: "rep ?ps a ra" and b2: "rep ?ps b rb" using ra rb e by simp_all
  show ?thesis
  proof (cases "ra = rb")
    case True
    then have "union_sets a b s = Some (Inr s2)"
      by (simp add: union_sets_def f1 f2 rbind_simps)
    then show ?thesis using inv2 lp a2 b2 True by blast
  next
    case False
    note roota = rep_is_root [OF a2] and rootb = rep_is_root [OF b2]
    have ira: "in_range (sz s2) ra" and irb: "in_range (sz s2) rb"
      using roota rootb in_range_length [OF lz] by simp_all
    let ?sa = "sz s2 ! unat ra" and ?sb = "sz s2 ! unat rb"
    define a' where "a' = (if ?sa <s ?sb then rb else ra)"
    define b' where "b' = (if ?sa <s ?sb then ra else rb)"
    have ab: "(if ?sa <s ?sb then (rb, ra) else (ra, rb)) = (a', b')"
      by (simp add: a'_def b'_def)
    have ne: "a' \<noteq> b'" using False by (auto simp: a'_def b'_def)
    have ra': "rep ?ps a' a'" and rb': "rep ?ps b' b'"
      using roota rootb by (auto simp: a'_def b'_def rep.root)
    have ia: "in_range (sz s2) a'" and ib: "in_range (sz s2) b'"
      using ira irb by (auto simp: a'_def b'_def)
    have ipb: "in_range ?ps b'" using rep_in_range [OF rb'] .
    let ?ps' = "?ps[unat b' := a']"
    let ?szs = "(sz s2)[unat a' := sz s2 ! unat a' + sz s2 ! unat b']"
    let ?s' = "s2\<lparr>parent := ?ps', sz := ?szs\<rparr>"
    have u: "union_sets a b s = Some (Inr ?s')"
      unfolding union_sets_def
      by (simp only: f1 f2 rbind_simps prod.case False not_False_eq_True if_True)
        (simp add: vec_get_def vec_set_def ira irb ia ib ipb rbind_simps ab)
    note link = rep_link [OF ra' rb' ne]
    have all: "\<exists>r. rep ?ps' v r" if "in_range ?ps' v" for v
    proof -
      have "in_range ?ps v" using that in_range_length [of ?ps' ?ps] by simp
      moreover have "\<And>v. in_range ?ps v \<Longrightarrow> \<exists>r. rep ?ps v r"
        using inv2 by (simp add: dsu_inv_def)
      ultimately obtain r where r: "rep ?ps v r" by blast
      show ?thesis
      proof (cases "r = b'")
        case True
        then have "rep ?ps' v a'" using link [of v a'] r by simp
        then show ?thesis by blast
      next
        case False
        then have "rep ?ps' v r" using link [of v r] r by simp
        then show ?thesis by blast
      qed
    qed
    have inv: "dsu_inv ?s'" using all lz by (simp add: dsu_inv_def)
    have to_a: "rep ?ps' x a'" if "rep ?ps x r" "r = ra \<or> r = rb" for x r
    proof (cases "r = b'")
      case True
      then show ?thesis using link [of x a'] that(1) by simp
    next
      case F: False
      then have "r = a'" using that(2) by (auto simp: a'_def b'_def split: if_splits)
      then show ?thesis using link [of x a'] that(1) ne by simp
    qed
    have "rep ?ps' a a'" "rep ?ps' b a'" using to_a a2 b2 by blast+
    then show ?thesis using u inv lp by auto
  qed
qed

subsection \<open>Reachable states\<close>

lemma valid_arg:
  assumes "0 \<le>s (n::cint)" "0 \<le>s v" "v <s n" "length ps = unat n"
  shows "in_range ps v"
proof -
  have "0 \<le> sint n" "0 \<le> sint v" using assms(1,2) by (simp_all add: word_sle_eq)
  then have "unat n < 2 ^ 31" "unat v < 2 ^ 31" using sint_nonneg(2) by blast+
  then have "unat v < unat n" using assms(3) by (simp add: sless_unat)
  then show ?thesis using assms(2,4) by (simp add: in_range_def)
qed

lemma DSU_ctor_inv:
  assumes "DSU_ctor n = Some (Inr s)"
  shows "dsu_inv s \<and> length (parent s) = unat n \<and> 0 \<le>s n"
proof -
  from assms have nn: "\<not> n <s 0"
    and s: "s = \<lparr>parent = map word_of_nat [0..<unat n], sz = replicate (unat n) 1\<rparr>"
    by (auto simp: DSU_ctor_def split: if_splits)
  have "rep (parent s) v v" if "in_range (parent s) v" for v
  proof (rule rep.root [OF that])
    have "unat v < unat n" using that s by (simp add: in_range_def)
    then show "parent s ! unat v = v" using s by simp
  qed
  then have "dsu_inv s" using s by (auto simp: dsu_inv_def)
  moreover have "0 \<le>s n" using nn by (simp add: word_sle_eq word_sless_alt)
  ultimately show ?thesis using s by simp
qed

lemma dsu_state_inv: "dsu_state n s \<Longrightarrow> dsu_inv s \<and> length (parent s) = unat n \<and> 0 \<le>s n"
proof (induction rule: dsu_state.induct)
  case (init s)
  then show ?case by (rule DSU_ctor_inv)
next
  case (find s v r s')
  then have "in_range (parent s) v" using valid_arg by blast
  then obtain r0 where "rep (parent s) v r0" using find.IH by (auto simp: dsu_inv_def)
  from find_set_correct [OF this] find.hyps(4)
  have z: "sz s' = sz s" and l: "length (parent s') = length (parent s)"
    and e: "\<forall>x y. rep (parent s') x y \<longleftrightarrow> rep (parent s) x y"
    by auto
  have "dsu_inv s'"
    using find.IH z l e in_range_length [OF l] by (simp add: dsu_inv_def)
  then show ?case using find.IH l by simp
next
  case (union s a b s')
  then have "in_range (parent s) a" "in_range (parent s) b" using valid_arg by blast+
  from union_sets_correct [OF _ this] union.IH union.hyps(6)
  show ?case by auto
qed

lemma representative_rep: "rep (parent s) x r \<Longrightarrow> representative s x = Some r"
  using find_set_correct [of s x r] by (auto simp: representative_def)

subsection \<open>The DSU's property\<close>

text \<open>
  C10. For the DSU over \<open>n\<close> elements with all arguments in \<open>[0, n - 1]\<close>: right after
  \<open>union_sets(a, b)\<close>, \<open>find_set(a)\<close> equals \<open>find_set(b)\<close>; and \<open>find_set\<close> never changes the
  partition: two elements have equal representatives before a call of \<open>find_set\<close> if and
  only if they have equal representatives after it (each element even keeps its
  representative: path compression only re-links nodes to their own root).
\<close>

theorem union_joins_and_find_keeps_partition:
  "(dsu_state n s \<and> 0 \<le>s a \<and> a <s n \<and> 0 \<le>s b \<and> b <s n \<longrightarrow>
      (\<exists>s1 r s2 s3. union_sets a b s = Some (Inr s1) \<and>
         find_set a s1 = Some (Inr (r, s2)) \<and> find_set b s2 = Some (Inr (r, s3)))) \<and>
   (dsu_state n s \<and> 0 \<le>s v \<and> v <s n \<longrightarrow>
      (\<exists>r s'. find_set v s = Some (Inr (r, s')) \<and>
         (\<forall>x y. 0 \<le>s x \<and> x <s n \<and> 0 \<le>s y \<and> y <s n \<longrightarrow>
            representative s x \<noteq> None \<and> representative s' x = representative s x \<and>
            (representative s x = representative s y \<longleftrightarrow>
             representative s' x = representative s' y))))"
proof (intro conjI impI)
  assume h: "dsu_state n s \<and> 0 \<le>s a \<and> a <s n \<and> 0 \<le>s b \<and> b <s n"
  note i = dsu_state_inv [of n s]
  have ia: "in_range (parent s) a" and ib: "in_range (parent s) b"
    using h i valid_arg by blast+
  from union_sets_correct [OF _ ia ib] h i
  obtain s1 r where u: "union_sets a b s = Some (Inr s1)"
    and ra: "rep (parent s1) a r" and rb: "rep (parent s1) b r"
    by blast
  from find_set_correct [OF ra] obtain s2 where f1: "find_set a s1 = Some (Inr (r, s2))"
    and e: "\<forall>x y. rep (parent s2) x y \<longleftrightarrow> rep (parent s1) x y"
    by blast
  have "rep (parent s2) b r" using rb e by simp
  from find_set_correct [OF this] obtain s3 where "find_set b s2 = Some (Inr (r, s3))"
    by blast
  then show "\<exists>s1 r s2 s3. union_sets a b s = Some (Inr s1) \<and>
         find_set a s1 = Some (Inr (r, s2)) \<and> find_set b s2 = Some (Inr (r, s3))"
    using u f1 by blast
next
  assume h: "dsu_state n s \<and> 0 \<le>s v \<and> v <s n"
  note i = dsu_state_inv [of n s]
  have all: "\<exists>r. rep (parent s) x r" if "0 \<le>s x \<and> x <s n" for x
  proof -
    have "in_range (parent s) x" using that h i valid_arg by blast
    then show ?thesis using h i by (auto simp: dsu_inv_def)
  qed
  from all [of v] h obtain r where "rep (parent s) v r" by blast
  from find_set_correct [OF this] obtain s' where f: "find_set v s = Some (Inr (r, s'))"
    and e: "\<forall>x y. rep (parent s') x y \<longleftrightarrow> rep (parent s) x y"
    by blast
  have "representative s x \<noteq> None \<and> representative s' x = representative s x \<and>
            (representative s x = representative s y \<longleftrightarrow>
             representative s' x = representative s' y)"
    if "0 \<le>s x \<and> x <s n \<and> 0 \<le>s y \<and> y <s n" for x y
  proof -
    from all [of x] all [of y] that obtain rx ry
      where rx: "rep (parent s) x rx" and ry: "rep (parent s) y ry" by blast
    then have "rep (parent s') x rx" "rep (parent s') y ry" using e by simp_all
    then have "representative s' x = Some rx" "representative s' y = Some ry"
      by (simp_all add: representative_rep)
    moreover have "representative s x = Some rx" "representative s y = Some ry"
      using rx ry by (simp_all add: representative_rep)
    ultimately show ?thesis by simp
  qed
  then show "\<exists>r s'. find_set v s = Some (Inr (r, s')) \<and>
         (\<forall>x y. 0 \<le>s x \<and> x <s n \<and> 0 \<le>s y \<and> y <s n \<longrightarrow>
            representative s x \<noteq> None \<and> representative s' x = representative s x \<and>
            (representative s x = representative s y \<longleftrightarrow>
             representative s' x = representative s' y))"
    using f by blast
qed

theorem union_joins_and_find_keeps_partition_witness:
  "dsu_state 5 \<lparr>parent = [0, 0, 0, 2, 4], sz = [4, 1, 2, 1, 1]\<rparr> \<and>
   (0::cint) \<le>s 3 \<and> (3::cint) <s 5 \<and> (0::cint) \<le>s 4 \<and> (4::cint) <s 5 \<and>
   (\<exists>s1 r s2 s3. union_sets 3 4 \<lparr>parent = [0, 0, 0, 2, 4], sz = [4, 1, 2, 1, 1]\<rparr> = Some (Inr s1) \<and>
      find_set 3 s1 = Some (Inr (r, s2)) \<and> find_set 4 s2 = Some (Inr (r, s3))) \<and>
   find_set 3 \<lparr>parent = [0, 0, 0, 2, 4], sz = [4, 1, 2, 1, 1]\<rparr> =
     Some (Inr (0, \<lparr>parent = [0, 0, 0, 0, 4], sz = [4, 1, 2, 1, 1]\<rparr>)) \<and>
   representative \<lparr>parent = [0, 0, 0, 0, 4], sz = [4, 1, 2, 1, 1]\<rparr> 1 =
     representative \<lparr>parent = [0, 0, 0, 2, 4], sz = [4, 1, 2, 1, 1]\<rparr> 1"
proof -
  let ?s0 = "\<lparr>parent = [0, 1, 2, 3, 4], sz = [1, 1, 1, 1, 1]\<rparr>"
  let ?s1 = "\<lparr>parent = [0, 0, 2, 3, 4], sz = [2, 1, 1, 1, 1]\<rparr>"
  let ?s2 = "\<lparr>parent = [0, 0, 2, 2, 4], sz = [2, 1, 2, 1, 1]\<rparr>"
  let ?s3 = "\<lparr>parent = [0, 0, 0, 2, 4], sz = [4, 1, 2, 1, 1]\<rparr>"
  let ?s4 = "\<lparr>parent = [0, 0, 0, 0, 4], sz = [4, 1, 2, 1, 1]\<rparr>"
  have "DSU_ctor 5 = Some (Inr ?s0)" by code_simp
  then have d0: "dsu_state 5 ?s0" by (rule dsu_state.init)
  have "union_sets 0 1 ?s0 = Some (Inr ?s1)" by code_simp
  from dsu_state.union [OF d0 _ _ _ _ this] have d1: "dsu_state 5 ?s1"
    by (simp add: word_sle_eq word_sless_alt)
  have "union_sets 2 3 ?s1 = Some (Inr ?s2)" by code_simp
  from dsu_state.union [OF d1 _ _ _ _ this] have d2: "dsu_state 5 ?s2"
    by (simp add: word_sle_eq word_sless_alt)
  have "union_sets 0 2 ?s2 = Some (Inr ?s3)" by code_simp
  from dsu_state.union [OF d2 _ _ _ _ this] have d3: "dsu_state 5 ?s3"
    by (simp add: word_sle_eq word_sless_alt)
  have v: "(0::cint) \<le>s 3 \<and> (3::cint) <s 5 \<and> (0::cint) \<le>s 4 \<and> (4::cint) <s 5"
    "(0::cint) \<le>s 1 \<and> (1::cint) <s 5"
    by (simp_all add: word_sle_eq word_sless_alt)
  note t = union_joins_and_find_keeps_partition [of 5 ?s3 3 4 3]
  from t d3 v(1) have j: "\<exists>s1 r s2 s3. union_sets 3 4 ?s3 = Some (Inr s1) \<and>
      find_set 3 s1 = Some (Inr (r, s2)) \<and> find_set 4 s2 = Some (Inr (r, s3))"
    by blast
  have f: "find_set 3 ?s3 = Some (Inr (0, ?s4))" by code_simp
  from t d3 v(1) obtain r s' where f': "find_set 3 ?s3 = Some (Inr (r, s'))"
    and k: "\<forall>x y. 0 \<le>s x \<and> x <s 5 \<and> 0 \<le>s y \<and> y <s 5 \<longrightarrow>
            representative ?s3 x \<noteq> None \<and> representative s' x = representative ?s3 x \<and>
            (representative ?s3 x = representative ?s3 y \<longleftrightarrow>
             representative s' x = representative s' y)"
    by blast
  have "s' = ?s4" using f f' by simp
  then have "representative ?s4 1 = representative ?s3 1" using k v(2) by blast
  then show ?thesis using d3 v(1) j f by blast
qed

end
